theory Spec2Isabelle
  imports Main "HOL-Library.Multiset" "HOL-Library.Sublist"
begin

section \<open>Wirtinger width of four-bridge diagrams: the program\<close>

text \<open>
  A shallow embedding of \<^verbatim>\<open>calc_ww_fourbridge.py\<close>. Python exceptions are values of
  \<open>error\<close>; a function that may raise returns \<open>error + 'a\<close>. The scanning loop of
  \<^verbatim>\<open>find_strands\<close> is a \<^verbatim>\<open>while True\<close> that may run forever, so it returns an
  \<open>option\<close>, whose \<open>None\<close> is "never returns".
\<close>

datatype error = ValueError | IndexError | KeyError | UnboundLocalError

type_synonym label = string
type_synonym strand = "int list"
type_synonym crossing = "label \<times> label"

text \<open>A Python dict is an association list in insertion order, with distinct keys.\<close>

type_synonym knot_dict = "(label \<times> strand \<times> crossing list) list"
type_synonym colors_dict = "(label \<times> label list) list"

subsection \<open>process_gauss_code\<close>

text \<open>
  The builtin \<^verbatim>\<open>int(s)\<close> on an ASCII string: surrounding whitespace is dropped, one
  sign is allowed, then decimal digits, where single underscores may stand between digits.
  Anything else raises ValueError.
\<close>

definition is_space :: "char \<Rightarrow> bool" where
  "is_space c = (c \<in> set [CHR '' '', CHR 0x09, CHR 0x0A, CHR 0x0B, CHR 0x0C, CHR 0x0D])"

definition is_digit :: "char \<Rightarrow> bool" where
  "is_digit c = (c \<in> set ''0123456789'')"

definition digit_val :: "char \<Rightarrow> int" where
  "digit_val c = int (of_char c) - 48"

definition strip :: "string \<Rightarrow> string" where
  "strip s = rev (dropWhile is_space (rev (dropWhile is_space s)))"

text \<open>\<open>digits acc after_digit s\<close>: the digits of \<open>s\<close>, an underscore only after a digit
  and before another one.\<close>

fun digits :: "int \<Rightarrow> bool \<Rightarrow> string \<Rightarrow> error + int" where
  "digits acc after_digit [] = (if after_digit then Inr acc else Inl ValueError)"
| "digits acc after_digit (c # cs) =
     (if is_digit c then digits (10 * acc + digit_val c) True cs
      else if c = CHR ''_'' \<and> after_digit \<and> cs \<noteq> [] \<and> is_digit (hd cs) then digits acc False cs
      else Inl ValueError)"

definition py_int :: "string \<Rightarrow> error + int" where
  "py_int s =
     (case strip s of
        [] \<Rightarrow> Inl ValueError
      | c # cs \<Rightarrow>
          if c = CHR ''-'' then map_sum id uminus (digits 0 False cs)
          else if c = CHR ''+'' then digits 0 False cs
          else digits 0 False (c # cs))"

text \<open>\<^verbatim>\<open>s.replace(',', '')\<close>\<close>

definition remove_commas :: "string \<Rightarrow> string" where
  "remove_commas s = filter (\<lambda>c. c \<noteq> CHR '','') s"

fun process_gauss_code :: "string list \<Rightarrow> error + int list" where
  "process_gauss_code [] = Inr []"
| "process_gauss_code (s # raw) =
     (case py_int (remove_commas s) of
        Inl e \<Rightarrow> Inl e
      | Inr n \<Rightarrow> (case process_gauss_code raw of Inl e \<Rightarrow> Inl e | Inr ns \<Rightarrow> Inr (n # ns)))"

subsection \<open>find_strands\<close>

text \<open>The inner loop \<^verbatim>\<open>while gauss_code[i] > 0: i = (i + 1) % len(gauss_code)\<close>.\<close>

partial_function (option) next_under :: "int list \<Rightarrow> nat \<Rightarrow> (error + nat) option" where
  "next_under g i =
     (if length g \<le> i then Some (Inl IndexError)
      else if g ! i > 0 then next_under g ((i + 1) mod length g)
      else Some (Inr i))"

text \<open>The strand from \<open>beginning\<close> to \<open>i\<close>, both ends included, wrapping past the end of
  the code when \<open>beginning > i\<close>.\<close>

definition new_strand :: "int list \<Rightarrow> nat \<Rightarrow> nat \<Rightarrow> strand" where
  "new_strand g beginning i =
     (if beginning > i then drop beginning g @ take (i + 1) g
      else take (i + 1 - beginning) (drop beginning g))"

text \<open>The outer \<^verbatim>\<open>while True\<close>. \<open>S\<close> is \<^verbatim>\<open>strand_set\<close>, kept in insertion order.\<close>

partial_function (option) scan_strands ::
  "int list \<Rightarrow> nat \<Rightarrow> strand list \<Rightarrow> (error + strand list) option" where
  "scan_strands g i S =
     (if length g \<le> i then Some (Inl IndexError)
      else if g ! i < 0 then
        Option.bind (next_under g ((i + 1) mod length g))
          (\<lambda>r. case r of
                  Inl e \<Rightarrow> Some (Inl e)
                | Inr j \<Rightarrow>
                    if new_strand g i j \<notin> set S then scan_strands g j (S @ [new_strand g i j])
                    else Some (Inr S))
      else scan_strands g ((i + 1) mod length g) S)"

declare next_under.simps [code] scan_strands.simps [code]

definition letter_list :: "label list" where
  "letter_list = map (\<lambda>n. [char_of n]) [65..<91]"

text \<open>\<^verbatim>\<open>for i, strand in enumerate(strand_set): strands_dict[letter_list[i]] = [strand, []]\<close>\<close>

fun label_strands :: "nat \<Rightarrow> strand list \<Rightarrow> knot_dict \<Rightarrow> error + knot_dict" where
  "label_strands i [] d = Inr d"
| "label_strands i (s # ss) d =
     (if length letter_list \<le> i then Inl IndexError
      else label_strands (i + 1) ss (d @ [(letter_list ! i, s, [])]))"

text \<open>
  Python does not fix the order in which a set is iterated. \<open>ord\<close> is that order: it maps
  the strands in insertion order to the order the labelling loop meets them in.
\<close>

definition find_strands ::
  "(strand list \<Rightarrow> strand list) \<Rightarrow> int list \<Rightarrow> (error + knot_dict) option" where
  "find_strands ord g =
     (case scan_strands g 0 [] of
        None \<Rightarrow> None
      | Some (Inl e) \<Rightarrow> Some (Inl e)
      | Some (Inr S) \<Rightarrow> Some (label_strands 0 (ord S) []))"

definition set_order :: "(strand list \<Rightarrow> strand list) \<Rightarrow> bool" where
  "set_order ord = (\<forall>S. mset (ord S) = mset S)"

subsection \<open>find_crossings\<close>

text \<open>The scan over \<^verbatim>\<open>key_inner\<close>. \<open>u1\<close>, \<open>u2\<close> are the locals \<^verbatim>\<open>under1\<close>, \<^verbatim>\<open>under2\<close>
  (\<open>None\<close> while unbound); they are not reset between crossings.\<close>

fun match_scan ::
  "knot_dict \<Rightarrow> int \<Rightarrow> label option \<Rightarrow> label option \<Rightarrow> bool \<Rightarrow> bool
     \<Rightarrow> error + (label option \<times> label option)" where
  "match_scan [] und u1 u2 found1 found2 = Inr (u1, u2)"
| "match_scan ((key_inner, t, cs) # rest) und u1 u2 found1 found2 =
     (if found1 \<and> found2 then Inr (u1, u2)
      else if t = [] then Inl IndexError
      else match_scan rest und
             (if hd t = - und then Some key_inner else u1)
             (if last t = - und then Some key_inner else u2)
             (hd t = - und \<or> found1)
             (last t = - und \<or> found2))"

text \<open>\<^verbatim>\<open>knot_dict[key_outer][1].append(c)\<close>\<close>

definition append_crossing :: "knot_dict \<Rightarrow> label \<Rightarrow> crossing \<Rightarrow> knot_dict" where
  "append_crossing kd key_outer c =
     map (\<lambda>(k, t, cs). if k = key_outer then (k, t, cs @ [c]) else (k, t, cs)) kd"

type_synonym fc_state = "knot_dict \<times> label option \<times> label option"

fun over_loop :: "label \<Rightarrow> int list \<Rightarrow> fc_state \<Rightarrow> error + fc_state" where
  "over_loop key_outer [] st = Inr st"
| "over_loop key_outer (und # rest) (kd, u1, u2) =
     (if und > 0 then
        (case match_scan kd und u1 u2 False False of
           Inl e \<Rightarrow> Inl e
         | Inr (Some a, Some b) \<Rightarrow>
             over_loop key_outer rest (append_crossing kd key_outer (a, b), Some a, Some b)
         | Inr _ \<Rightarrow> Inl UnboundLocalError)
      else over_loop key_outer rest (kd, u1, u2))"

fun outer_loop :: "label list \<Rightarrow> fc_state \<Rightarrow> error + fc_state" where
  "outer_loop [] st = Inr st"
| "outer_loop (key_outer # keys) (kd, u1, u2) =
     (case map_of kd key_outer of
        None \<Rightarrow> Inl KeyError
      | Some (t, cs) \<Rightarrow>
          (case over_loop key_outer t (kd, u1, u2) of
             Inl e \<Rightarrow> Inl e
           | Inr st' \<Rightarrow> outer_loop keys st'))"

definition find_crossings :: "knot_dict \<Rightarrow> int list \<Rightarrow> error + knot_dict" where
  "find_crossings knot_dict gauss_code =
     map_sum id fst (outer_loop (map fst knot_dict) (knot_dict, None, None))"

definition create_knot_dictionary ::
  "(strand list \<Rightarrow> strand list) \<Rightarrow> int list \<Rightarrow> (error + knot_dict) option" where
  "create_knot_dictionary ord g =
     (case find_strands ord g of
        None \<Rightarrow> None
      | Some (Inl e) \<Rightarrow> Some (Inl e)
      | Some (Inr sd) \<Rightarrow> Some (find_crossings sd g))"

subsection \<open>get_seeds\<close>

text \<open>\<^verbatim>\<open>itertools.combinations\<close>, in its order.\<close>

fun combinations :: "'a list \<Rightarrow> nat \<Rightarrow> 'a list list" where
  "combinations xs 0 = [[]]"
| "combinations [] (Suc k) = []"
| "combinations (x # xs) (Suc k) = map ((#) x) (combinations xs k) @ combinations xs (Suc k)"

definition get_seeds :: "label list \<Rightarrow> nat \<Rightarrow> label list list" where
  "get_seeds strands n = combinations strands n"

subsection \<open>find_color, is_colored\<close>

fun find_color :: "label \<Rightarrow> colors_dict \<Rightarrow> label" where
  "find_color strand [] = []"
| "find_color strand ((color, l) # d) = (if strand \<in> set l then color else find_color strand d)"

fun is_colored :: "label \<Rightarrow> colors_dict \<Rightarrow> bool" where
  "is_colored strand [] = False"
| "is_colored strand ((color, l) # d) = (if strand \<in> set l then True else is_colored strand d)"

subsection \<open>maximally_extend\<close>

record me_state =
  strand_colors_dict :: colors_dict
  colored_strands :: "label list"
  new_coloring :: bool

text \<open>\<^verbatim>\<open>d[k] = v\<close>: a key already there keeps its place.\<close>

fun dict_set :: "('k \<times> 'v) list \<Rightarrow> 'k \<Rightarrow> 'v \<Rightarrow> ('k \<times> 'v) list" where
  "dict_set [] k v = [(k, v)]"
| "dict_set ((k', v') # d) k v = (if k' = k then (k', v) # d else (k', v') # dict_set d k v)"

text \<open>\<^verbatim>\<open>d[color].append(x)\<close>, a KeyError when \<open>color\<close> is no key.\<close>

definition dict_append :: "colors_dict \<Rightarrow> label \<Rightarrow> label \<Rightarrow> error + colors_dict" where
  "dict_append d color x =
     (if color \<in> fst ` set d
      then Inr (map (\<lambda>(k, l). if k = color then (k, l @ [x]) else (k, l)) d)
      else Inl KeyError)"

text \<open>The state before the \<^verbatim>\<open>while\<close> loop.\<close>

definition init_state :: "label list \<Rightarrow> me_state" where
  "init_state seeds =
     \<lparr>strand_colors_dict =
        map (\<lambda>(seed, l). (seed, l @ [seed])) (fold (\<lambda>strand d. dict_set d strand []) seeds []),
      colored_strands = seeds,
      new_coloring = True\<rparr>"

text \<open>\<^verbatim>\<open>d[color].append(x); colored_strands.append(x); new_coloring = True\<close>\<close>

definition assign :: "me_state \<Rightarrow> label \<Rightarrow> label \<Rightarrow> error + me_state" where
  "assign st src x =
     (case dict_append (strand_colors_dict st) (find_color src (strand_colors_dict st)) x of
        Inl e \<Rightarrow> Inl e
      | Inr d \<Rightarrow>
          Inr \<lparr>strand_colors_dict = d, colored_strands = colored_strands st @ [x],
               new_coloring = True\<rparr>)"

text \<open>The body of the innermost loop, at one crossing.\<close>

definition color_crossing :: "me_state \<Rightarrow> crossing \<Rightarrow> error + me_state" where
  "color_crossing st c =
     (if fst c \<in> set (colored_strands st) \<and> snd c \<notin> set (colored_strands st)
      then assign st (fst c) (snd c)
      else if fst c \<notin> set (colored_strands st) \<and> snd c \<in> set (colored_strands st)
      then assign st (snd c) (fst c)
      else Inr st)"

fun crossing_loop :: "me_state \<Rightarrow> crossing list \<Rightarrow> error + me_state" where
  "crossing_loop st [] = Inr st"
| "crossing_loop st (c # cs) =
     (case color_crossing st c of Inl e \<Rightarrow> Inl e | Inr st' \<Rightarrow> crossing_loop st' cs)"

text \<open>Every label that stands in a crossing of the diagram.\<close>

definition kd_labels :: "knot_dict \<Rightarrow> label set" where
  "kd_labels kd = (\<Union>(k, t, cs) \<in> set kd. fst ` set cs \<union> snd ` set cs)"

definition gap :: "knot_dict \<Rightarrow> me_state \<Rightarrow> nat" where
  "gap kd st = card (kd_labels kd - set (colored_strands st))"

text \<open>
  \<^verbatim>\<open>for strand in strand_colors_dict[seed]\<close>: the list grows while it is iterated, and
  Python's list iterator reads it by index, so strands appended during the loop are visited
  in the same pass. \<open>j\<close> is the iterator's index.
\<close>

function strand_loop :: "knot_dict \<Rightarrow> label \<Rightarrow> nat \<Rightarrow> me_state \<Rightarrow> error + me_state" where
  "strand_loop kd seed j st =
     (case map_of (strand_colors_dict st) seed of
        None \<Rightarrow> Inl KeyError
      | Some l \<Rightarrow>
          if j < length l then
            (case map_of kd (l ! j) of
               None \<Rightarrow> Inl KeyError
             | Some (t, cs) \<Rightarrow>
                 (case crossing_loop st cs of
                    Inl e \<Rightarrow> Inl e
                  | Inr st' \<Rightarrow> strand_loop kd seed (j + 1) st'))
          else Inr st)"
  by pat_completeness auto


lemma finite_kd_labels: "finite (kd_labels kd)"
  by (auto simp: kd_labels_def)

lemma card_gap_less: "finite L \<Longrightarrow> x \<in> L \<Longrightarrow> x \<notin> A \<Longrightarrow> card (L - insert x A) < card (L - A)"
  by (rule psubset_card_mono) auto

lemma assign_colored:
  "assign st src x = Inr st' \<Longrightarrow>
     colored_strands st' = colored_strands st @ [x] \<and> new_coloring st'"
  by (auto simp: assign_def split: sum.splits)

lemma assign_gap:
  assumes "assign st src x = Inr st'" "x \<in> kd_labels kd" "x \<notin> set (colored_strands st)"
  shows "new_coloring st' \<and> gap kd st' < gap kd st"
proof -
  from assign_colored[OF assms(1)]
  have c: "colored_strands st' = colored_strands st @ [x]" and n: "new_coloring st'" by auto
  have "card (kd_labels kd - insert x (set (colored_strands st)))
          < card (kd_labels kd - set (colored_strands st))"
    using assms(2,3) by (intro card_gap_less finite_kd_labels)
  with c n show ?thesis by (simp add: gap_def)
qed

lemma color_crossing_gap:
  assumes "color_crossing st c = Inr st'" "fst c \<in> kd_labels kd" "snd c \<in> kd_labels kd"
  shows "st' = st \<or> (new_coloring st' \<and> gap kd st' < gap kd st)"
  using assms
  by (auto simp: color_crossing_def split: if_splits dest: assign_gap)

lemma crossing_loop_gap:
  assumes "crossing_loop st cs = Inr st'" "fst ` set cs \<subseteq> kd_labels kd" "snd ` set cs \<subseteq> kd_labels kd"
  shows "st' = st \<or> (new_coloring st' \<and> gap kd st' < gap kd st)"
  using assms
proof (induction cs arbitrary: st)
  case Nil
  then show ?case by simp
next
  case (Cons c cs)
  from Cons.prems(1) obtain st1 where 1: "color_crossing st c = Inr st1"
    and 2: "crossing_loop st1 cs = Inr st'"
    by (auto split: sum.splits)
  from 1 Cons.prems have a: "st1 = st \<or> (new_coloring st1 \<and> gap kd st1 < gap kd st)"
    by (intro color_crossing_gap) auto
  from 2 Cons.prems have b: "st' = st1 \<or> (new_coloring st' \<and> gap kd st' < gap kd st1)"
    by (intro Cons.IH) auto
  from a b show ?case by auto
qed

lemma kd_labels_lookup:
  "map_of kd s = Some (t, cs) \<Longrightarrow> fst ` set cs \<subseteq> kd_labels kd \<and> snd ` set cs \<subseteq> kd_labels kd"
  by (force simp: kd_labels_def dest!: map_of_SomeD)

termination strand_loop
proof (relation "inv_image (less_than <*lex*> less_than)
    (\<lambda>(kd, seed, j, st). (gap kd st, length (the (map_of (strand_colors_dict st) seed)) - j))",
    goal_cases)
  case 1
  show ?case by (intro wf_inv_image wf_lex_prod wf_less_than)
next
  case (2 kd seed j st l x t cs st')
  then have a: "map_of kd (l ! j) = Some (t, cs)" and b: "crossing_loop st cs = Inr st'"
    by simp_all
  from crossing_loop_gap[OF b] kd_labels_lookup[OF a]
  have "st' = st \<or> (new_coloring st' \<and> gap kd st' < gap kd st)" by blast
  with 2(1,2) show ?case by auto
qed

declare strand_loop.simps [simp del]

text \<open>\<^verbatim>\<open>for seed in strand_colors_dict\<close>: one pass over the keys.\<close>

fun seeds_loop :: "knot_dict \<Rightarrow> label list \<Rightarrow> me_state \<Rightarrow> error + me_state" where
  "seeds_loop kd [] st = Inr st"
| "seeds_loop kd (seed # rest) st =
     (case strand_loop kd seed 0 st of Inl e \<Rightarrow> Inl e | Inr st' \<Rightarrow> seeds_loop kd rest st')"

lemma strand_loop_gap:
  "strand_loop kd seed j st = Inr st' \<Longrightarrow>
     st' = st \<or> (new_coloring st' \<and> gap kd st' < gap kd st)"
proof (induction kd seed j st rule: strand_loop.induct)
  case (1 kd seed j st)
  note run = "1.prems"[unfolded strand_loop.simps[of kd seed j st]]
  show ?case
  proof (cases "map_of (strand_colors_dict st) seed")
    case None
    with run show ?thesis by simp
  next
    case (Some l)
    show ?thesis
    proof (cases "j < length l")
      case False
      with Some run show ?thesis by simp
    next
      case True
      with Some run obtain t cs st1 where
        a: "map_of kd (l ! j) = Some (t, cs)" and b: "crossing_loop st cs = Inr st1"
        and c: "strand_loop kd seed (j + 1) st1 = Inr st'"
        by (auto split: option.splits sum.splits)
      from crossing_loop_gap[OF b] kd_labels_lookup[OF a]
      have d: "st1 = st \<or> (new_coloring st1 \<and> gap kd st1 < gap kd st)" by blast
      from "1.IH"[OF Some True a refl b c]
      have "st' = st1 \<or> (new_coloring st' \<and> gap kd st' < gap kd st1)" .
      with d show ?thesis by auto
    qed
  qed
qed

lemma seeds_loop_gap:
  "seeds_loop kd ks st = Inr st' \<Longrightarrow>
     st' = st \<or> (new_coloring st' \<and> gap kd st' < gap kd st)"
proof (induction ks arbitrary: st)
  case Nil
  then show ?case by simp
next
  case (Cons k ks)
  from Cons.prems obtain st1 where a: "strand_loop kd k 0 st = Inr st1"
    and b: "seeds_loop kd ks st1 = Inr st'"
    by (auto split: sum.splits)
  from strand_loop_gap[OF a] Cons.IH[OF b] show ?case by auto
qed

text \<open>\<^verbatim>\<open>while new_coloring: new_coloring = False; for seed in strand_colors_dict: ...\<close>\<close>

function while_loop :: "knot_dict \<Rightarrow> me_state \<Rightarrow> error + me_state" where
  "while_loop kd st =
     (if new_coloring st then
        (case seeds_loop kd (map fst (strand_colors_dict st)) (st\<lparr>new_coloring := False\<rparr>) of
           Inl e \<Rightarrow> Inl e
         | Inr st' \<Rightarrow> while_loop kd st')
      else Inr st)"
  by pat_completeness auto

termination while_loop
proof (relation "measure (\<lambda>(kd, st). 2 * gap kd st + (if new_coloring st then 1 else 0))",
    goal_cases)
  case 1
  then show ?case by simp
next
  case (2 kd st st')
  from seeds_loop_gap[OF 2(2)] 2(1) show ?case
    by (auto simp: gap_def)
qed

declare while_loop.simps [simp del]

definition maximally_extend :: "label list \<Rightarrow> knot_dict \<Rightarrow> error + colors_dict" where
  "maximally_extend seeds knot_dict =
     map_sum id strand_colors_dict (while_loop knot_dict (init_state seeds))"

subsection \<open>count_multicolored_crossings\<close>

text \<open>The test of the innermost loop; \<^verbatim>\<open>strand_colors_dict[find_color(...)]\<close> is a lookup.\<close>

definition multicolored :: "colors_dict \<Rightarrow> crossing \<Rightarrow> error + bool" where
  "multicolored d c =
     (if is_colored (fst c) d \<and> is_colored (snd c) d then
        (case map_of d (find_color (fst c) d) of
           None \<Rightarrow> Inl KeyError
         | Some l \<Rightarrow> Inr (snd c \<notin> set l))
      else Inr False)"

fun count_crossings :: "colors_dict \<Rightarrow> crossing list \<Rightarrow> nat \<Rightarrow> error + nat" where
  "count_crossings d [] n = Inr n"
| "count_crossings d (c # cs) n =
     (case multicolored d c of
        Inl e \<Rightarrow> Inl e
      | Inr b \<Rightarrow> count_crossings d cs (if b then n + 1 else n))"

fun count_strands :: "colors_dict \<Rightarrow> knot_dict \<Rightarrow> label list \<Rightarrow> nat \<Rightarrow> error + nat" where
  "count_strands d kd [] n = Inr n"
| "count_strands d kd (strand # rest) n =
     (case map_of kd strand of
        None \<Rightarrow> Inl KeyError
      | Some (t, cs) \<Rightarrow>
          (case count_crossings d cs n of
             Inl e \<Rightarrow> Inl e
           | Inr n' \<Rightarrow> count_strands d kd rest n'))"

fun count_colors :: "colors_dict \<Rightarrow> knot_dict \<Rightarrow> colors_dict \<Rightarrow> nat \<Rightarrow> error + nat" where
  "count_colors d kd [] n = Inr n"
| "count_colors d kd ((color, l) # rest) n =
     (case count_strands d kd l n of
        Inl e \<Rightarrow> Inl e
      | Inr n' \<Rightarrow> count_colors d kd rest n')"

definition count_multicolored_crossings :: "colors_dict \<Rightarrow> knot_dict \<Rightarrow> error + nat" where
  "count_multicolored_crossings d knot_dict = count_colors d knot_dict d 0"

subsection \<open>calc\<close>

text \<open>\<^verbatim>\<open>for keys in d: for s in d[keys]: colored_set.append(s)\<close>\<close>

definition colored_set :: "colors_dict \<Rightarrow> label list" where
  "colored_set d = concat (map snd d)"

text \<open>The loop over \<^verbatim>\<open>potential_seed\<close>; \<open>True\<close> is the \<^verbatim>\<open>return '28'\<close>.\<close>

fun extension_loop ::
  "knot_dict \<Rightarrow> label list \<Rightarrow> label list \<Rightarrow> label list \<Rightarrow> label list \<Rightarrow> error + bool" where
  "extension_loop kd strands seeds cset [] = Inr False"
| "extension_loop kd strands seeds cset (potential_seed # rest) =
     (if potential_seed \<notin> set cset then
        (case maximally_extend (seeds @ [potential_seed]) kd of
           Inl e \<Rightarrow> Inl e
         | Inr new_d \<Rightarrow>
             if set (colored_set new_d) = set strands then Inr True
             else extension_loop kd strands seeds cset rest)
      else extension_loop kd strands seeds cset rest)"

fun seeds_search :: "knot_dict \<Rightarrow> label list \<Rightarrow> label list list \<Rightarrow> error + string" where
  "seeds_search kd strands [] = Inr ''32''"
| "seeds_search kd strands (seeds # rest) =
     (case maximally_extend seeds kd of
        Inl e \<Rightarrow> Inl e
      | Inr d \<Rightarrow>
          (case count_multicolored_crossings d kd of
             Inl e \<Rightarrow> Inl e
           | Inr n \<Rightarrow>
               if n > 0 then
                 (case extension_loop kd strands seeds (colored_set d) strands of
                    Inl e \<Rightarrow> Inl e
                  | Inr found \<Rightarrow> if found then Inr ''28'' else seeds_search kd strands rest)
               else seeds_search kd strands rest))"

definition calc :: "(strand list \<Rightarrow> strand list) \<Rightarrow> string list \<Rightarrow> (error + string) option" where
  "calc ord raw_gauss_code =
     (case process_gauss_code raw_gauss_code of
        Inl e \<Rightarrow> Some (Inl e)
      | Inr gauss_code \<Rightarrow>
          (case create_knot_dictionary ord gauss_code of
             None \<Rightarrow> None
           | Some (Inl e) \<Rightarrow> Some (Inl e)
           | Some (Inr knot_dict) \<Rightarrow>
               Some (seeds_search knot_dict (map fst knot_dict)
                       (get_seeds (map fst knot_dict) 3))))"

section \<open>Unfolding the loops on concrete inputs\<close>

lemma next_under_pos:
  "i < length g \<Longrightarrow> g ! i > 0 \<Longrightarrow> next_under g i = next_under g ((i + 1) mod length g)"
  by (subst next_under.simps) simp

lemma next_under_stop:
  "i < length g \<Longrightarrow> \<not> g ! i > 0 \<Longrightarrow> next_under g i = Some (Inr i)"
  by (subst next_under.simps) simp

lemma scan_strands_empty: "scan_strands [] i S = Some (Inl IndexError)"
  by (subst scan_strands.simps) simp

lemma scan_strands_skip:
  "i < length g \<Longrightarrow> \<not> g ! i < 0 \<Longrightarrow>
     scan_strands g i S = scan_strands g ((i + 1) mod length g) S"
  by (subst scan_strands.simps) simp

lemma scan_strands_new:
  "i < length g \<Longrightarrow> g ! i < 0 \<Longrightarrow> next_under g ((i + 1) mod length g) = Some (Inr j) \<Longrightarrow>
   new_strand g i j \<notin> set S \<Longrightarrow>
   scan_strands g i S = scan_strands g j (S @ [new_strand g i j])"
  by (subst scan_strands.simps) simp

lemma scan_strands_break:
  "i < length g \<Longrightarrow> g ! i < 0 \<Longrightarrow> next_under g ((i + 1) mod length g) = Some (Inr j) \<Longrightarrow>
   new_strand g i j \<in> set S \<Longrightarrow>
   scan_strands g i S = Some (Inr S)"
  by (subst scan_strands.simps) simp

lemmas scan_eval = next_under_pos next_under_stop scan_strands_empty scan_strands_skip
  scan_strands_new scan_strands_break new_strand_def

lemmas me_eval = maximally_extend_def init_state_def color_crossing_def assign_def
  dict_append_def while_loop.simps strand_loop.simps

lemmas kd_eval = create_knot_dictionary_def find_strands_def find_crossings_def
  append_crossing_def

lemma letter_list_eq: "letter_list = map (\<lambda>c. [c]) ''ABCDEFGHIJKLMNOPQRSTUVWXYZ''"
  by code_simp

lemma count_eval: "count_multicolored_crossings d kd = count_colors d kd d 0"
  by (simp add: count_multicolored_crossings_def)

text \<open>What \<^verbatim>\<open>create_knot_dictionary\<close> does once the strands are found and enumerated.\<close>

definition labelled_kd :: "strand list \<Rightarrow> int list \<Rightarrow> error + knot_dict" where
  "labelled_kd ss g =
     (case label_strands 0 ss [] of Inl e \<Rightarrow> Inl e | Inr sd \<Rightarrow> find_crossings sd g)"

lemma create_knot_dictionary_labelled:
  "scan_strands g 0 [] = Some (Inr S) \<Longrightarrow>
     create_knot_dictionary ord g = Some (labelled_kd (ord S) g)"
  by (auto simp: create_knot_dictionary_def find_strands_def labelled_kd_def split: sum.splits)

text \<open>The search of \<^verbatim>\<open>calc\<close> on a diagram.\<close>

definition kd_search :: "knot_dict \<Rightarrow> error + string" where
  "kd_search kd = seeds_search kd (map fst kd) (get_seeds (map fst kd) 3)"

lemmas run_eval = labelled_kd_def letter_list_eq find_crossings_def append_crossing_def
  get_seeds_def numeral_3_eq_3 me_eval count_eval multicolored_def colored_set_def

lemma combinations_short: "length xs < k \<Longrightarrow> combinations xs k = []"
  by (induction xs k rule: combinations.induct) auto

lemma label_strands_length:
  "i \<le> length letter_list \<Longrightarrow>
   label_strands i ss d =
     (if length letter_list < i + length ss then Inl IndexError
      else Inr (d @ zip (drop i letter_list) (map (\<lambda>s. (s, [])) ss)))"
proof (induction ss arbitrary: i d)
  case Nil
  then show ?case by simp
next
  case (Cons s ss)
  show ?case
  proof (cases "length letter_list \<le> i")
    case True
    then show ?thesis by simp
  next
    case False
    then have "drop i letter_list = letter_list ! i # drop (Suc i) letter_list"
      by (simp add: Cons_nth_drop_Suc)
    with False show ?thesis by (simp add: Cons.IH)
  qed
qed

section \<open>Fewer than three strands\<close>

lemma scan_two: "scan_strands [-1,2,-2,1] 0 [] = Some (Inr [[-1,2,-2],[-2,1,-1]])"
  by (simp add: scan_eval)

lemma kd_two: "create_knot_dictionary id [-1,2,-2,1] =
   Some (Inr [(''A'', [- 1, 2, - 2], [(''B'', ''A'')]), (''B'', [- 2, 1, - 1], [(''A'', ''B'')])])"
  by (simp add: kd_eval scan_two letter_list_eq)

lemma kd_two_rev: "create_knot_dictionary rev [-1,2,-2,1] =
   Some (Inr [(''A'', [- 2, 1, - 1], [(''B'', ''A'')]), (''B'', [- 1, 2, - 2], [(''A'', ''B'')])])"
  by (simp add: kd_eval scan_two letter_list_eq)

lemma raw_two: "process_gauss_code [''-1'', ''2'', ''-2'', ''1''] = Inr [-1,2,-2,1]"
  by code_simp

text \<open>
  C4 (as amended). \<^verbatim>\<open>calc\<close> has no guard on the number of strands and no DiagramError:
  when the diagram of the input has fewer than three strands, \<^verbatim>\<open>combinations(strands, 3)\<close>
  is empty, the loop over the seeds is not entered, and \<^verbatim>\<open>calc\<close> returns \<^verbatim>\<open>'32'\<close>.
\<close>

theorem C4_fewer_than_three_strands_returns_32:
  assumes "process_gauss_code raw = Inr g"
    and "create_knot_dictionary ord g = Some (Inr kd)"
    and "length kd < 3"
  shows "calc ord raw = Some (Inr ''32'')"
  using assms by (simp add: calc_def get_seeds_def combinations_short)

theorem C4_witness:
  "process_gauss_code [''-1'', ''2'', ''-2'', ''1''] = Inr [-1,2,-2,1] \<and>
   create_knot_dictionary id [-1,2,-2,1] =
     Some (Inr [(''A'', [- 1, 2, - 2], [(''B'', ''A'')]), (''B'', [- 2, 1, - 1], [(''A'', ''B'')])]) \<and>
   calc id [''-1'', ''2'', ''-2'', ''1''] = Some (Inr ''32'')"
  using C4_fewer_than_three_strands_returns_32[OF raw_two kd_two] raw_two kd_two by simp

text \<open>
  C4 as stated fails: the code \<^verbatim>\<open>[-1, 2, -2, 1]\<close> has two strands, whichever way the strand
  set is enumerated, and \<^verbatim>\<open>calc\<close> returns \<^verbatim>\<open>'32'\<close> instead of failing.
\<close>

theorem C4_counterexample:
  "map_option (map_sum id length) (create_knot_dictionary id [-1,2,-2,1]) = Some (Inr 2) \<and>
   calc id [''-1'', ''2'', ''-2'', ''1''] = Some (Inr ''32'') \<and>
   map_option (map_sum id length) (create_knot_dictionary rev [-1,2,-2,1]) = Some (Inr 2) \<and>
   calc rev [''-1'', ''2'', ''-2'', ''1''] = Some (Inr ''32'')"
  by (simp add: calc_def raw_two kd_two kd_two_rev get_seeds_def combinations_short
      del: process_gauss_code.simps)

section \<open>Errors of the diagram construction\<close>

lemma match_scan_none1:
  "\<forall>(k, t, cs) \<in> set kd. t \<noteq> [] \<and> hd t \<noteq> - v \<Longrightarrow> \<not> f1 \<Longrightarrow>
     \<exists>u2'. match_scan kd v u1 u2 f1 f2 = Inr (u1, u2')"
  by (induction kd v u1 u2 f1 f2 rule: match_scan.induct) auto

lemma match_scan_none2:
  "\<forall>(k, t, cs) \<in> set kd. t \<noteq> [] \<and> last t \<noteq> - v \<Longrightarrow> \<not> f2 \<Longrightarrow>
     \<exists>u1'. match_scan kd v u1 u2 f1 f2 = Inr (u1', u2)"
  by (induction kd v u1 u2 f1 f2 rule: match_scan.induct) auto

lemma over_loop_unbound1:
  assumes "0 < v" "\<forall>(k, t, cs) \<in> set kd. t \<noteq> [] \<and> hd t \<noteq> - v"
  shows "over_loop ko (v # rest) (kd, None, u2) = Inl UnboundLocalError"
proof -
  from match_scan_none1[OF assms(2), of False None u2 False]
  obtain u2' where "match_scan kd v None u2 False False = Inr (None, u2')" by auto
  with assms(1) show ?thesis by simp
qed

lemma over_loop_unbound2:
  assumes "0 < v" "\<forall>(k, t, cs) \<in> set kd. t \<noteq> [] \<and> last t \<noteq> - v"
  shows "over_loop ko (v # rest) (kd, u1, None) = Inl UnboundLocalError"
proof -
  from match_scan_none2[OF assms(2), of False u1 None False]
  obtain u1' where "match_scan kd v u1 None False False = Inr (u1', None)" by auto
  with assms(1) show ?thesis by (simp split: option.splits)
qed

lemma too_many_strands:
  assumes "scan_strands g 0 [] = Some (Inr S)" "length letter_list < length (ord S)"
  shows "create_knot_dictionary ord g = Some (Inl IndexError)"
  using assms
  by (simp add: create_knot_dictionary_def find_strands_def label_strands_length)

lemma scan_27:
  "scan_strands [-1,-2,-3,-4,-5,-6,-7,-8,-9,-10,-11,-12,-13,-14,-15,-16,-17,-18,-19,-20,-21,
      -22,-23,-24,-25,-26,-27] 0 [] =
   Some (Inr [[-1,-2],[-2,-3],[-3,-4],[-4,-5],[-5,-6],[-6,-7],[-7,-8],[-8,-9],[-9,-10],[-10,-11],
     [-11,-12],[-12,-13],[-13,-14],[-14,-15],[-15,-16],[-16,-17],[-17,-18],[-18,-19],[-19,-20],
     [-20,-21],[-21,-22],[-22,-23],[-23,-24],[-24,-25],[-25,-26],[-26,-27],[-27,-1]])"
  by (simp add: scan_eval)

lemma scan_stale: "scan_strands [-1,1,2,-3] 0 [] = Some (Inr [[-1,1,2,-3],[-3,-1]])"
  by (simp add: scan_eval)

lemma kd_stale: "create_knot_dictionary id [-1,1,2,-3] =
   Some (Inr [(''A'', [- 1, 1, 2, - 3], [(''A'', ''B''), (''A'', ''B'')]), (''B'', [- 3, - 1], [])])"
  by (simp add: kd_eval scan_stale letter_list_eq)

lemma raw_stale: "process_gauss_code [''-1'', ''1'', ''2'', ''-3''] = Inr [-1,1,2,-3]"
  by code_simp

lemma new_strand_nonempty: "i < length g \<Longrightarrow> new_strand g i j \<noteq> []"
  by (auto simp: new_strand_def)

lemma scan_strands_nonempty:
  assumes run: "scan_strands g i S = Some (Inr S')" and ne: "\<forall>t \<in> set S. t \<noteq> []"
  shows "\<forall>t \<in> set S'. t \<noteq> []"
proof -
  let ?P = "\<lambda>(g::int list) (i::nat) (S::strand list) (r::error + strand list).
    (\<forall>t \<in> set S. t \<noteq> []) \<longrightarrow> (\<forall>S'. r = Inr S' \<longrightarrow> (\<forall>t \<in> set S'. t \<noteq> []))"
  have "?P g i S (Inr S')"
  proof (rule scan_strands.raw_induct[where P = ?P, OF _ run], goal_cases)
    case (1 scan g i S r)
    show ?case
    proof (intro impI allI)
      fix S' assume ne: "\<forall>t \<in> set S. t \<noteq> []" and r: "r = Inr S'"
      show "\<forall>t \<in> set S'. t \<noteq> []"
      proof (cases "length g \<le> i")
        case True
        with 1(2) r show ?thesis by simp
      next
        case False
        then have i: "i < length g" by simp
        show ?thesis
        proof (cases "g ! i < 0")
          case neg: False
          with i 1(2) have "scan g ((i + 1) mod length g) S = Some r" by simp
          from 1(1)[OF this] ne r show ?thesis by blast
        next
          case neg: True
          with i 1(2) obtain y where
            y: "(case y of Inl e \<Rightarrow> Some (Inl e)
                 | Inr j \<Rightarrow> if new_strand g i j \<notin> set S
                     then scan g j (S @ [new_strand g i j]) else Some (Inr S)) = Some r"
            by (auto simp: Option.bind_eq_Some_conv)
          show ?thesis
          proof (cases y)
            case (Inl e)
            with y r show ?thesis by simp
          next
            case (Inr j)
            show ?thesis
            proof (cases "new_strand g i j \<in> set S")
              case True
              with y Inr r ne show ?thesis by auto
            next
              case False
              with y Inr have a: "scan g j (S @ [new_strand g i j]) = Some r" by simp
              from ne new_strand_nonempty[OF i, of j]
              have "\<forall>t \<in> set (S @ [new_strand g i j]). t \<noteq> []" by auto
              with 1(1)[OF a] r show ?thesis by blast
            qed
          qed
        qed
      qed
    qed
  qed
  with ne show ?thesis by blast
qed

lemma over_loop_no_over:
  "find (\<lambda>x. 0 < x) t = None \<Longrightarrow> over_loop ko t st = Inr st"
proof (induction t)
  case Nil
  then show ?case by simp
next
  case (Cons u t)
  obtain kd u1 u2 where st: "st = (kd, u1, u2)" by (cases st)
  from Cons show ?case by (simp add: st split: if_splits)
qed

lemma over_loop_first_over:
  assumes "find (\<lambda>x. 0 < x) t = Some v"
    and "\<forall>(k, t, cs) \<in> set kd. t \<noteq> []"
    and "(\<forall>(k, t, cs) \<in> set kd. hd t \<noteq> - v) \<or> (\<forall>(k, t, cs) \<in> set kd. last t \<noteq> - v)"
  shows "over_loop ko t (kd, None, None) = Inl UnboundLocalError"
  using assms(1)
proof (induction t)
  case Nil
  then show ?case by simp
next
  case (Cons u t)
  show ?case
  proof (cases "0 < u")
    case False
    with Cons show ?thesis by simp
  next
    case True
    with Cons.prems have u: "u = v" by simp
    from assms(3) show ?thesis
    proof
      assume "\<forall>(k, t, cs) \<in> set kd. hd t \<noteq> - v"
      with assms(2) have "\<forall>(k, t, cs) \<in> set kd. t \<noteq> [] \<and> hd t \<noteq> - v" by auto
      from over_loop_unbound1[OF _ this, of ko t None] True u show ?thesis by simp
    next
      assume "\<forall>(k, t, cs) \<in> set kd. last t \<noteq> - v"
      with assms(2) have "\<forall>(k, t, cs) \<in> set kd. t \<noteq> [] \<and> last t \<noteq> - v" by auto
      from over_loop_unbound2[OF _ this, of ko t None] True u show ?thesis by simp
    qed
  qed
qed

lemma find_append:
  "find P (xs @ ys) = (case find P xs of None \<Rightarrow> find P ys | Some x \<Rightarrow> Some x)"
  by (induction xs) auto

lemma outer_loop_first_over:
  assumes "distinct (map fst kd)"
    and "\<forall>(k, t, cs) \<in> set kd. t \<noteq> []"
    and "(\<forall>(k, t, cs) \<in> set kd. hd t \<noteq> - v) \<or> (\<forall>(k, t, cs) \<in> set kd. last t \<noteq> - v)"
    and "set rest \<subseteq> set kd"
    and "find (\<lambda>x. 0 < x) (concat (map (\<lambda>(k, t, cs). t) rest)) = Some v"
  shows "outer_loop (map fst rest) (kd, None, None) = Inl UnboundLocalError"
  using assms(4,5)
proof (induction rest)
  case Nil
  then show ?case by simp
next
  case (Cons a rest)
  obtain k t cs where a: "a = (k, t, cs)" by (cases a)
  from Cons.prems(1) a have "(k, t, cs) \<in> set kd" by simp
  with assms(1) have m: "map_of kd k = Some (t, cs)" by simp
  show ?case
  proof (cases "find (\<lambda>x. 0 < x) t")
    case None
    with Cons.prems(2) have "find (\<lambda>x. 0 < x) (concat (map (\<lambda>(k, t, cs). t) rest)) = Some v"
      by (simp add: a find_append)
    with Cons.IH Cons.prems(1) have "outer_loop (map fst rest) (kd, None, None) = Inl UnboundLocalError"
      by simp
    with m over_loop_no_over[OF None, of k "(kd, None, None)"] show ?thesis
      by (simp add: a)
  next
    case (Some v')
    with Cons.prems(2) have "v' = v" by (simp add: a find_append)
    with Some over_loop_first_over[OF _ assms(2,3), of t k] m show ?thesis
      by (simp add: a)
  qed
qed

lemma find_crossings_first_over:
  assumes "distinct (map fst sd)"
    and "\<forall>(k, t, cs) \<in> set sd. t \<noteq> []"
    and "(\<forall>(k, t, cs) \<in> set sd. hd t \<noteq> - v) \<or> (\<forall>(k, t, cs) \<in> set sd. last t \<noteq> - v)"
    and "find (\<lambda>x. 0 < x) (concat (map (\<lambda>(k, t, cs). t) sd)) = Some v"
  shows "find_crossings sd g = Inl UnboundLocalError"
  using outer_loop_first_over[OF assms(1,2,3) subset_refl assms(4)]
  by (simp add: find_crossings_def)

lemma distinct_letter_list: "distinct letter_list"
  by (simp add: letter_list_eq)

lemma label_strands_ok:
  assumes "length ss \<le> length letter_list"
  shows "label_strands 0 ss [] = Inr (zip letter_list (map (\<lambda>s. (s, [])) ss))"
  using assms by (simp add: label_strands_length)

lemma labelled_strands:
  "length ss \<le> length ks \<Longrightarrow> map (\<lambda>(k, t, cs). t) (zip ks (map (\<lambda>s. (s, [])) ss)) = ss"
proof (induction ss arbitrary: ks)
  case Nil
  then show ?case by simp
next
  case (Cons s ss)
  then show ?case by (cases ks) auto
qed

lemma labelled_keys:
  "map fst (zip letter_list (map (\<lambda>s. (s, [])) ss)) = take (length ss) letter_list"
  by (simp add: map_fst_zip_take min_def take_all)

lemma first_over_unbound:
  assumes scan: "scan_strands g 0 [] = Some (Inr S)"
    and ord: "set_order ord"
    and len: "length (ord S) \<le> length letter_list"
    and first: "find (\<lambda>x. 0 < x) (concat (ord S)) = Some v"
    and none: "(\<forall>t \<in> set (ord S). hd t \<noteq> - v) \<or> (\<forall>t \<in> set (ord S). last t \<noteq> - v)"
  shows "create_knot_dictionary ord g = Some (Inl UnboundLocalError)"
proof -
  let ?sd = "zip letter_list (map (\<lambda>s. (s, [])) (ord S))"
  from scan_strands_nonempty[OF scan] have "\<forall>t \<in> set S. t \<noteq> []" by simp
  moreover from ord have "set (ord S) = set S" by (auto simp: set_order_def dest: mset_eq_setD)
  ultimately have ne: "\<forall>t \<in> set (ord S). t \<noteq> []" by simp
  have mem: "t \<in> set (ord S)" if "(k, t, cs) \<in> set ?sd" for k t cs
    using set_zip_rightD[OF that] by auto
  have 1: "distinct (map fst ?sd)"
    by (simp only: labelled_keys distinct_take distinct_letter_list)
  have 2: "\<forall>(k, t, cs) \<in> set ?sd. t \<noteq> []" using ne mem by auto
  from none
  have 3: "(\<forall>(k, t, cs) \<in> set ?sd. hd t \<noteq> - v) \<or> (\<forall>(k, t, cs) \<in> set ?sd. last t \<noteq> - v)"
  proof
    assume "\<forall>t \<in> set (ord S). hd t \<noteq> - v"
    with mem have "\<forall>(k, t, cs) \<in> set ?sd. hd t \<noteq> - v" by auto
    then show ?thesis ..
  next
    assume "\<forall>t \<in> set (ord S). last t \<noteq> - v"
    with mem have "\<forall>(k, t, cs) \<in> set ?sd. last t \<noteq> - v" by auto
    then show ?thesis ..
  qed
  have 4: "find (\<lambda>x. 0 < x) (concat (map (\<lambda>(k, t, cs). t) ?sd)) = Some v"
    using first by (simp only: labelled_strands[OF len])
  from find_crossings_first_over[OF 1 2 3 4, of g] scan label_strands_ok[OF len]
  show ?thesis by (simp add: create_knot_dictionary_def find_strands_def)
qed

lemma calc_kd_error:
  "process_gauss_code raw = Inr g \<Longrightarrow> create_knot_dictionary ord g = Some (Inl e) \<Longrightarrow>
     calc ord raw = Some (Inl e)"
  by (simp add: calc_def)

lemma scan_unmatched: "scan_strands [-1,2,-3] 0 [] = Some (Inr [[-1,2,-3],[-3,-1]])"
  by (simp add: scan_eval)

lemma raw_unmatched: "process_gauss_code [''-1'', ''2'', ''-3''] = Inr [-1,2,-3]"
  by code_simp

lemma raw_27:
  "process_gauss_code [''-1'',''-2'',''-3'',''-4'',''-5'',''-6'',''-7'',''-8'',''-9'',''-10'',
      ''-11'',''-12'',''-13'',''-14'',''-15'',''-16'',''-17'',''-18'',''-19'',''-20'',''-21'',
      ''-22'',''-23'',''-24'',''-25'',''-26'',''-27''] =
   Inr [-1,-2,-3,-4,-5,-6,-7,-8,-9,-10,-11,-12,-13,-14,-15,-16,-17,-18,-19,-20,-21,
      -22,-23,-24,-25,-26,-27]"
  by code_simp

text \<open>
  C5 (as amended). The program has no DiagramError. When the strands outnumber the 26
  letters, \<^verbatim>\<open>letter_list[i]\<close> raises IndexError, and so do \<^verbatim>\<open>create_knot_dictionary\<close> and
  \<^verbatim>\<open>calc\<close>. \<^verbatim>\<open>under1\<close> and \<^verbatim>\<open>under2\<close> are unbound until the first over-entry met by
  \<^verbatim>\<open>find_crossings\<close>, the first positive entry of the strands in the order of their labels.
  When no strand starts with the negation of this entry, or none ends with it, building the
  pair raises UnboundLocalError, and so do \<^verbatim>\<open>create_knot_dictionary\<close> and \<^verbatim>\<open>calc\<close>.
\<close>

theorem C5_errors_are_index_or_unbound_local:
  assumes "process_gauss_code raw = Inr g"
    and "scan_strands g 0 [] = Some (Inr S)"
    and "set_order ord"
  shows "(length letter_list < length (ord S) \<longrightarrow>
      create_knot_dictionary ord g = Some (Inl IndexError) \<and>
      calc ord raw = Some (Inl IndexError)) \<and>
   (length (ord S) \<le> length letter_list \<and>
    find (\<lambda>x. 0 < x) (concat (ord S)) = Some v \<and>
    ((\<forall>t \<in> set (ord S). hd t \<noteq> - v) \<or> (\<forall>t \<in> set (ord S). last t \<noteq> - v)) \<longrightarrow>
      create_knot_dictionary ord g = Some (Inl UnboundLocalError) \<and>
      calc ord raw = Some (Inl UnboundLocalError))"
proof (intro conjI impI)
  assume l: "length letter_list < length (ord S)"
  show a: "create_knot_dictionary ord g = Some (Inl IndexError)"
    by (rule too_many_strands[where ord = ord, OF assms(2) l])
  show "calc ord raw = Some (Inl IndexError)"
    by (rule calc_kd_error[OF assms(1) a])
next
  assume h: "length (ord S) \<le> length letter_list \<and>
    find (\<lambda>x. 0 < x) (concat (ord S)) = Some v \<and>
    ((\<forall>t \<in> set (ord S). hd t \<noteq> - v) \<or> (\<forall>t \<in> set (ord S). last t \<noteq> - v))"
  from h have h1: "length (ord S) \<le> length letter_list"
    by (rule conjunct1)
  from h have h2: "find (\<lambda>x. 0 < x) (concat (ord S)) = Some v"
    by (rule conjunct1[OF conjunct2])
  from h have h3: "(\<forall>t \<in> set (ord S). hd t \<noteq> - v) \<or> (\<forall>t \<in> set (ord S). last t \<noteq> - v)"
    by (rule conjunct2[OF conjunct2])
  show b: "create_knot_dictionary ord g = Some (Inl UnboundLocalError)"
    by (rule first_over_unbound[where ord = ord, OF assms(2,3) h1 h2 h3])
  show "calc ord raw = Some (Inl UnboundLocalError)"
    by (rule calc_kd_error[OF assms(1) b])
qed


theorem C5_witness:
  "create_knot_dictionary id [-1,-2,-3,-4,-5,-6,-7,-8,-9,-10,-11,-12,-13,-14,-15,-16,-17,-18,
      -19,-20,-21,-22,-23,-24,-25,-26,-27] = Some (Inl IndexError) \<and>
   calc id [''-1'',''-2'',''-3'',''-4'',''-5'',''-6'',''-7'',''-8'',''-9'',''-10'',
      ''-11'',''-12'',''-13'',''-14'',''-15'',''-16'',''-17'',''-18'',''-19'',''-20'',''-21'',
      ''-22'',''-23'',''-24'',''-25'',''-26'',''-27''] = Some (Inl IndexError) \<and>
   scan_strands [-1,2,-3] 0 [] = Some (Inr [[-1,2,-3],[-3,-1]]) \<and>
   create_knot_dictionary id [-1,2,-3] = Some (Inl UnboundLocalError) \<and>
   calc id [''-1'', ''2'', ''-3''] = Some (Inl UnboundLocalError)"
proof -
  let ?S = "[[-1,-2],[-2,-3],[-3,-4],[-4,-5],[-5,-6],[-6,-7],[-7,-8],[-8,-9],[-9,-10],[-10,-11],
     [-11,-12],[-12,-13],[-13,-14],[-14,-15],[-15,-16],[-16,-17],[-17,-18],[-18,-19],[-19,-20],
     [-20,-21],[-21,-22],[-22,-23],[-23,-24],[-24,-25],[-25,-26],[-26,-27],[-27,-1::int]]"
  let ?T = "[[-1,2,-3],[-3,-1::int]]"
  have o: "set_order id" by (simp add: set_order_def)
  have l: "length letter_list < length (id ?S)" by (simp add: letter_list_eq)
  have h: "length (id ?T) \<le> length letter_list \<and>
    find (\<lambda>x. 0 < x) (concat (id ?T)) = Some 2 \<and>
    ((\<forall>t \<in> set (id ?T). hd t \<noteq> - 2) \<or> (\<forall>t \<in> set (id ?T). last t \<noteq> - 2))"
    by (simp add: letter_list_eq)
  note a = mp[OF C5_errors_are_index_or_unbound_local[where ord = id and S = ?S, OF raw_27 scan_27 o, THEN conjunct1] l]
  note b = mp[OF C5_errors_are_index_or_unbound_local[where ord = id and S = ?T and v = 2, OF raw_unmatched scan_unmatched o,
        THEN conjunct2] h]
  from a b scan_unmatched show ?thesis by (intro conjI) (erule conjunct1 conjunct2 | assumption)+
qed

text \<open>
  C5 as stated fails. In \<^verbatim>\<open>[-1, 1, 2, -3]\<close> no strand starts or ends with \<open>-2\<close>; the
  over-entry \<open>2\<close> gets the pair found for the over-entry \<open>1\<close> before it, no error is
  raised and \<^verbatim>\<open>calc\<close> returns a bound.
\<close>

theorem C5_counterexample:
  "create_knot_dictionary id [-1,1,2,-3] =
     Some (Inr [(''A'', [- 1, 1, 2, - 3], [(''A'', ''B''), (''A'', ''B'')]),
                (''B'', [- 3, - 1], [])]) \<and>
   calc id [''-1'', ''1'', ''2'', ''-3''] = Some (Inr ''32'')"
  by (simp add: calc_def raw_stale kd_stale get_seeds_def combinations_short
      del: process_gauss_code.simps)

section \<open>The trefoil\<close>

lemma scan_trefoil:
  "scan_strands [-1,2,-3,1,-2,3] 0 [] = Some (Inr [[- 1, 2, - 3], [- 3, 1, - 2], [- 2, 3, - 1]])"
  by (simp add: scan_eval)

lemma perm3:
  assumes "mset xs = mset [a, b, c]"
  shows "xs \<in> {[a,b,c],[a,c,b],[b,a,c],[b,c,a],[c,a,b],[c,b,a]}"
proof -
  from assms have "length xs = 3"
    by (metis length_Cons list.size(3) numeral_3_eq_3 size_mset)
  then obtain x y z where xs: "xs = [x, y, z]"
    by (auto simp: numeral_3_eq_3 length_Suc_conv)
  from assms show ?thesis unfolding xs
    by (auto simp: add_eq_conv_ex)
qed

definition run_summary ::
  "error + knot_dict \<Rightarrow> error + (label \<times> nat) list \<times> (error + string)" where
  "run_summary = map_sum id (\<lambda>kd. (map (\<lambda>(k, t, cs). (k, length t)) kd, kd_search kd))"

lemma trefoil_runs:
  assumes "ss \<in> {[a,b,c],[a,c,b],[b,a,c],[b,c,a],[c,a,b],[c,b,a]}"
    and "a = [- 1, 2, - 3]" "b = [- 3, 1, - 2]" "c = [- 2, 3, - 1]"
  shows "run_summary (labelled_kd ss [-1,2,-3,1,-2,3])
   = Inr ([(''A'', 3), (''B'', 3), (''C'', 3)], Inr ''32'')"
  using assms(1) unfolding assms(2-4)
  by (elim insertE emptyE; simp add: run_eval run_summary_def kd_search_def)

lemma raw_trefoil:
  "process_gauss_code [''-1'', ''2'', ''-3'', ''1'', ''-2'', ''3''] = Inr [-1,2,-3,1,-2,3]"
  by code_simp

text \<open>
  C3 (as amended). On \<^verbatim>\<open>[-1, 2, -3, 1, -2, 3]\<close>, whichever way the strand set is enumerated:
  parsing succeeds, there are three strands, as many as under-passes, each strand is a
  tuple of three entries (both of its under-passes and the over-pass between them), no
  error is raised and \<^verbatim>\<open>calc\<close> returns \<^verbatim>\<open>'32'\<close>.
\<close>

theorem C3_trefoil:
  assumes "set_order ord"
  shows "process_gauss_code [''-1'', ''2'', ''-3'', ''1'', ''-2'', ''3''] = Inr [-1,2,-3,1,-2,3] \<and>
    (\<exists>kd. create_knot_dictionary ord [-1,2,-3,1,-2,3] = Some (Inr kd) \<and>
          length kd = length (filter (\<lambda>x. x < 0) [-1,2,-3,1,-2,3::int]) \<and>
          map (\<lambda>(k, t, cs). (k, length t)) kd = [(''A'', 3), (''B'', 3), (''C'', 3)]) \<and>
    calc ord [''-1'', ''2'', ''-3'', ''1'', ''-2'', ''3''] = Some (Inr ''32'')"
proof -
  let ?S = "[[- 1, 2, - 3], [- 3, 1, - 2], [- 2, 3, - 1::int]]"
  from assms have "mset (ord ?S) = mset ?S" by (simp add: set_order_def)
  from trefoil_runs[OF perm3[OF this] refl refl refl]
  obtain kd where r: "labelled_kd (ord ?S) [-1,2,-3,1,-2,3] = Inr kd"
    and k: "map (\<lambda>(k, t, cs). (k, length t)) kd = [(''A'', 3), (''B'', 3), (''C'', 3)]"
    and s: "seeds_search kd (map fst kd) (get_seeds (map fst kd) 3) = Inr ''32''"
    by (cases "labelled_kd (ord ?S) [-1,2,-3,1,-2,3]")
      (simp_all add: run_summary_def kd_search_def)
  from k have "length (map (\<lambda>(k, t, cs). (k, length t)) kd) = 3" by simp
  then have l: "length kd = 3" by simp
  have c: "create_knot_dictionary ord [-1,2,-3,1,-2,3] = Some (Inr kd)"
    using create_knot_dictionary_labelled[OF scan_trefoil, of ord] r by simp
  have "calc ord [''-1'', ''2'', ''-3'', ''1'', ''-2'', ''3''] = Some (Inr ''32'')"
    unfolding calc_def raw_trefoil using c s by simp
  with c k l raw_trefoil show ?thesis by simp
qed

theorem C3_witness:
  "set_order id \<and>
   create_knot_dictionary id [-1,2,-3,1,-2,3] =
     Some (Inr [(''A'', [- 1, 2, - 3], [(''C'', ''B'')]),
                (''B'', [- 3, 1, - 2], [(''A'', ''C'')]),
                (''C'', [- 2, 3, - 1], [(''B'', ''A'')])]) \<and>
   calc id [''-1'', ''2'', ''-3'', ''1'', ''-2'', ''3''] = Some (Inr ''32'')"
proof -
  have o: "set_order id" by (simp add: set_order_def)
  have "create_knot_dictionary id [-1,2,-3,1,-2,3] =
     Some (Inr [(''A'', [- 1, 2, - 3], [(''C'', ''B'')]),
                (''B'', [- 3, 1, - 2], [(''A'', ''C'')]),
                (''C'', [- 2, 3, - 1], [(''B'', ''A'')])])"
    by (simp add: kd_eval scan_trefoil letter_list_eq)
  with o C3_trefoil[OF o] show ?thesis by simp
qed

text \<open>C3 as stated fails: each of the three strands has three entries, not two.\<close>

theorem C3_counterexample:
  "map_option (map_sum id (map length)) (scan_strands [-1,2,-3,1,-2,3] 0 []) =
     Some (Inr [3, 3, 3])"
  by (simp add: scan_trefoil)

section \<open>The colour partition\<close>

lemma colored_set_Nil [simp]: "colored_set [] = []"
  by (simp add: colored_set_def)

lemma colored_set_Cons: "colored_set ((k, l) # d) = l @ colored_set d"
  by (simp add: colored_set_def)

lemma is_colored_iff: "is_colored s d \<longleftrightarrow> s \<in> set (colored_set d)"
  by (induction d) (auto simp: colored_set_Cons split: if_splits)

lemma find_color_in:
  "s \<in> set (colored_set d) \<Longrightarrow> \<exists>l. (find_color s d, l) \<in> set d \<and> s \<in> set l"
proof (induction d)
  case Nil
  then show ?case by simp
next
  case (Cons a d)
  obtain k l where a: "a = (k, l)" by (cases a)
  show ?case
  proof (cases "s \<in> set l")
    case True
    then show ?thesis by (auto simp: a)
  next
    case False
    with Cons.prems have "s \<in> set (colored_set d)" by (simp add: a colored_set_Cons)
    from Cons.IH[OF this] False show ?thesis by (auto simp: a)
  qed
qed

lemma colored_set_mem: "(k, l) \<in> set d \<Longrightarrow> x \<in> set l \<Longrightarrow> x \<in> set (colored_set d)"
  by (induction d) (auto simp: colored_set_Cons)

lemma colored_set_memD: "x \<in> set (colored_set d) \<Longrightarrow> \<exists>k l. (k, l) \<in> set d \<and> x \<in> set l"
proof (induction d)
  case Nil
  then show ?case by simp
next
  case (Cons a d)
  obtain k l where a: "a = (k, l)" by (cases a)
  from Cons.prems consider "x \<in> set l" | "x \<in> set (colored_set d)"
    by (auto simp: a colored_set_Cons)
  then show ?case
  proof cases
    case 1
    then show ?thesis by (auto simp: a)
  next
    case 2
    from Cons.IH[OF this] show ?thesis by auto
  qed
qed

text \<open>With distinct keys and disjoint parts, a strand has one part only.\<close>

lemma part_unique:
  "distinct (colored_set d) \<Longrightarrow> (k, l) \<in> set d \<Longrightarrow> (k', l') \<in> set d \<Longrightarrow>
     x \<in> set l \<Longrightarrow> x \<in> set l' \<Longrightarrow> distinct (map fst d) \<Longrightarrow> k = k' \<and> l = l'"
proof (induction d)
  case Nil
  then show ?case by simp
next
  case (Cons a d)
  obtain k0 l0 where a: "a = (k0, l0)" by (cases a)
  from Cons.prems(1) have dl: "distinct l0" and dd: "distinct (colored_set d)"
    and dj: "set l0 \<inter> set (colored_set d) = {}"
    by (auto simp: a colored_set_Cons)
  consider "(k, l) = (k0, l0)" "(k', l') = (k0, l0)"
    | "(k, l) = (k0, l0)" "(k', l') \<in> set d"
    | "(k, l) \<in> set d" "(k', l') = (k0, l0)"
    | "(k, l) \<in> set d" "(k', l') \<in> set d"
    using Cons.prems(2,3) a by auto
  then show ?case
  proof cases
    case 1
    then show ?thesis by simp
  next
    case 2
    with dj Cons.prems(4,5) colored_set_mem[of k' l' d x] show ?thesis by auto
  next
    case 3
    with dj Cons.prems(4,5) colored_set_mem[of k l d x] show ?thesis by auto
  next
    case 4
    with Cons.IH dd Cons.prems(4,5,6) show ?thesis by simp
  qed
qed

definition app :: "colors_dict \<Rightarrow> label \<Rightarrow> label \<Rightarrow> colors_dict" where
  "app d c x = map (\<lambda>(k, l). if k = c then (k, l @ [x]) else (k, l)) d"

lemma dict_append_app:
  "dict_append d c x = (if c \<in> fst ` set d then Inr (app d c x) else Inl KeyError)"
  by (simp add: dict_append_def app_def)

lemma app_keys [simp]: "map fst (app d c x) = map fst d"
  by (induction d) (auto simp: app_def)

lemma app_notin: "c \<notin> fst ` set d \<Longrightarrow> app d c x = d"
  by (induction d) (auto simp: app_def)

lemma app_Cons:
  "app ((k, l) # d) c x = (if k = c then (k, l @ [x]) else (k, l)) # app d c x"
  by (simp add: app_def)

lemma app_Nil [simp]: "app [] c x = []"
  by (simp add: app_def)

lemma app_colored_subset: "set (colored_set (app d c x)) \<subseteq> insert x (set (colored_set d))"
proof (induction d)
  case Nil
  then show ?case by simp
next
  case (Cons a d)
  obtain k l where a: "a = (k, l)" by (cases a)
  from Cons.IH show ?case by (auto simp: a app_Cons colored_set_Cons)
qed

lemma app_colored_superset: "set (colored_set d) \<subseteq> set (colored_set (app d c x))"
proof (induction d)
  case Nil
  then show ?case by simp
next
  case (Cons a d)
  obtain k l where a: "a = (k, l)" by (cases a)
  from Cons.IH show ?case by (auto simp: a app_Cons colored_set_Cons)
qed

lemma app_colored_new: "c \<in> fst ` set d \<Longrightarrow> x \<in> set (colored_set (app d c x))"
proof (induction d)
  case Nil
  then show ?case by simp
next
  case (Cons a d)
  obtain k l where a: "a = (k, l)" by (cases a)
  show ?case
  proof (cases "k = c")
    case True
    then show ?thesis by (simp add: a app_Cons colored_set_Cons)
  next
    case False
    with Cons.prems have "c \<in> fst ` set d" by (auto simp: a)
    from Cons.IH[OF this] False show ?thesis by (simp add: a app_Cons colored_set_Cons)
  qed
qed

lemma app_colored_set:
  "c \<in> fst ` set d \<Longrightarrow> set (colored_set (app d c x)) = insert x (set (colored_set d))"
  using app_colored_subset[of d c x] app_colored_superset[of d c x] app_colored_new[of c d x]
  by auto

lemma app_distinct:
  "distinct (map fst d) \<Longrightarrow> distinct (colored_set d) \<Longrightarrow> x \<notin> set (colored_set d) \<Longrightarrow>
     distinct (colored_set (app d c x))"
proof (induction d)
  case Nil
  then show ?case by (simp add: app_def colored_set_def)
next
  case (Cons a d)
  obtain k l where a: "a = (k, l)" by (cases a)
  show ?case
  proof (cases "k = c")
    case True
    with Cons.prems a have "c \<notin> fst ` set d" by auto
    then have "app d c x = d" by (rule app_notin)
    with Cons.prems True show ?thesis by (auto simp: a app_Cons colored_set_Cons)
  next
    case False
    from Cons.prems have "distinct (colored_set (app d c x))"
      by (intro Cons.IH) (auto simp: a colored_set_Cons)
    with False Cons.prems app_colored_subset[of d c x] show ?thesis
      by (auto simp: a app_Cons colored_set_Cons)
  qed
qed

lemma app_mem:
  "(k, l') \<in> set (app d c x) \<longleftrightarrow>
     (\<exists>l. (k, l) \<in> set d \<and> l' = (if k = c then l @ [x] else l))"
proof (induction d)
  case Nil
  then show ?case by simp
next
  case (Cons a d)
  obtain k0 l0 where a: "a = (k0, l0)" by (cases a)
  from Cons.IH show ?case by (auto simp: a app_Cons)
qed

lemma app_grows:
  assumes "(k, l) \<in> set d"
  shows "\<exists>l'. (k, l') \<in> set (app d c x) \<and> prefix l l'"
proof (intro exI conjI)
  from assms show "(k, if k = c then l @ [x] else l) \<in> set (app d c x)"
    unfolding app_mem by (intro exI[of _ l]) simp
  show "prefix l (if k = c then l @ [x] else l)" by simp
qed

definition parts_inv :: "me_state \<Rightarrow> bool" where
  "parts_inv st \<longleftrightarrow>
     distinct (map fst (strand_colors_dict st)) \<and>
     distinct (colored_set (strand_colors_dict st)) \<and>
     set (colored_set (strand_colors_dict st)) = set (colored_strands st)"

lemma assign_result:
  assumes "parts_inv st" "src \<in> set (colored_strands st)"
  shows "assign st src x =
     Inr \<lparr>strand_colors_dict = app (strand_colors_dict st) (find_color src (strand_colors_dict st)) x,
          colored_strands = colored_strands st @ [x], new_coloring = True\<rparr>"
proof -
  from assms have "src \<in> set (colored_set (strand_colors_dict st))" by (simp add: parts_inv_def)
  from find_color_in[OF this]
  have "find_color src (strand_colors_dict st) \<in> fst ` set (strand_colors_dict st)" by force
  then show ?thesis by (simp add: assign_def dict_append_app)
qed

lemma assign_parts_inv:
  assumes "parts_inv st" "src \<in> set (colored_strands st)" "x \<notin> set (colored_strands st)"
    "assign st src x = Inr st'"
  shows "parts_inv st'"
proof -
  let ?d = "strand_colors_dict st"
  from assms(1,2) have "src \<in> set (colored_set ?d)" by (simp add: parts_inv_def)
  from find_color_in[OF this] have k: "find_color src ?d \<in> fst ` set ?d" by force
  from assms(4) assign_result[OF assms(1,2), of x]
  have st': "st' = \<lparr>strand_colors_dict = app ?d (find_color src ?d) x,
          colored_strands = colored_strands st @ [x], new_coloring = True\<rparr>" by simp
  from assms(1,3) have "distinct (colored_set (app ?d (find_color src ?d) x))"
    by (intro app_distinct) (auto simp: parts_inv_def)
  with assms(1) k show ?thesis
    by (simp add: st' parts_inv_def app_colored_set)
qed

text \<open>What one crossing does to the state.\<close>

lemma color_crossing_cases:
  assumes "parts_inv st" "color_crossing st c = Inr st'"
  obtains (same) "st' = st"
      "(fst c \<in> set (colored_strands st)) = (snd c \<in> set (colored_strands st))"
    | (fwd) "fst c \<in> set (colored_strands st)" "snd c \<notin> set (colored_strands st)"
      "st' = \<lparr>strand_colors_dict =
                 app (strand_colors_dict st) (find_color (fst c) (strand_colors_dict st)) (snd c),
              colored_strands = colored_strands st @ [snd c], new_coloring = True\<rparr>"
    | (bwd) "fst c \<notin> set (colored_strands st)" "snd c \<in> set (colored_strands st)"
      "st' = \<lparr>strand_colors_dict =
                 app (strand_colors_dict st) (find_color (snd c) (strand_colors_dict st)) (fst c),
              colored_strands = colored_strands st @ [fst c], new_coloring = True\<rparr>"
proof -
  let ?C = "set (colored_strands st)"
  consider "fst c \<in> ?C" "snd c \<notin> ?C" | "fst c \<notin> ?C" "snd c \<in> ?C"
    | "(fst c \<in> ?C) = (snd c \<in> ?C)" by blast
  then show thesis
  proof cases
    case 1
    with assms(2) have "assign st (fst c) (snd c) = Inr st'"
      by (simp add: color_crossing_def)
    with assign_result[OF assms(1) 1(1), of "snd c"] have
      "st' = \<lparr>strand_colors_dict =
                 app (strand_colors_dict st) (find_color (fst c) (strand_colors_dict st)) (snd c),
              colored_strands = colored_strands st @ [snd c], new_coloring = True\<rparr>"
      by simp
    with 1 show thesis by (rule fwd)
  next
    case 2
    with assms(2) have "assign st (snd c) (fst c) = Inr st'"
      by (simp add: color_crossing_def)
    with assign_result[OF assms(1) 2(2), of "fst c"] have
      "st' = \<lparr>strand_colors_dict =
                 app (strand_colors_dict st) (find_color (snd c) (strand_colors_dict st)) (fst c),
              colored_strands = colored_strands st @ [fst c], new_coloring = True\<rparr>"
      by simp
    with 2 show thesis by (rule bwd)
  next
    case 3
    with assms(2) have "st' = st" by (auto simp: color_crossing_def)
    then show thesis using 3 by (rule same)
  qed
qed

lemma color_crossing_parts_inv:
  assumes "parts_inv st" "color_crossing st c = Inr st'"
  shows "parts_inv st'"
proof -
  let ?C = "set (colored_strands st)"
  consider "fst c \<in> ?C" "snd c \<notin> ?C" | "fst c \<notin> ?C" "snd c \<in> ?C"
    | "(fst c \<in> ?C) = (snd c \<in> ?C)" by blast
  then show ?thesis
  proof cases
    case 1
    with assms(2) have "assign st (fst c) (snd c) = Inr st'"
      by (simp add: color_crossing_def)
    from assign_parts_inv[OF assms(1) 1 this] show ?thesis .
  next
    case 2
    with assms(2) have "assign st (snd c) (fst c) = Inr st'"
      by (simp add: color_crossing_def)
    from assign_parts_inv[OF assms(1) 2(2) 2(1) this] show ?thesis .
  next
    case 3
    with assms show ?thesis by (auto simp: color_crossing_def)
  qed
qed

lemma color_crossing_total:
  "parts_inv st \<Longrightarrow> \<exists>st'. color_crossing st c = Inr st'"
  by (simp add: color_crossing_def assign_result)

lemma color_crossing_keys:
  "parts_inv st \<Longrightarrow> color_crossing st c = Inr st' \<Longrightarrow>
     map fst (strand_colors_dict st') = map fst (strand_colors_dict st)"
  by (erule (1) color_crossing_cases) simp_all

lemma color_crossing_grows:
  assumes "parts_inv st" "color_crossing st c = Inr st'" "(k, l) \<in> set (strand_colors_dict st)"
  shows "\<exists>l'. (k, l') \<in> set (strand_colors_dict st') \<and> prefix l l'"
  using assms(1,2)
proof (cases rule: color_crossing_cases)
  case same
  with assms(3) show ?thesis by auto
next
  case fwd
  from app_grows[OF assms(3)] show ?thesis unfolding fwd(3) by simp
next
  case bwd
  from app_grows[OF assms(3)] show ?thesis unfolding bwd(3) by simp
qed

lemma color_crossing_colored_mono:
  "parts_inv st \<Longrightarrow> color_crossing st c = Inr st' \<Longrightarrow>
     set (colored_strands st) \<subseteq> set (colored_strands st')"
  by (erule (1) color_crossing_cases) auto


section \<open>The run as a sequence of steps\<close>

text \<open>
  One step of \<^verbatim>\<open>maximally_extend\<close>: the body of the innermost loop at a crossing of a
  coloured strand, or the reset of \<^verbatim>\<open>new_coloring\<close> at the start of a pass.
\<close>

inductive me_step :: "knot_dict \<Rightarrow> me_state \<Rightarrow> me_state \<Rightarrow> bool" for kd where
  step_crossing:
    "s \<in> set (colored_set (strand_colors_dict st)) \<Longrightarrow> map_of kd s = Some (t, cs) \<Longrightarrow>
     c \<in> set cs \<Longrightarrow> color_crossing st c = Inr st' \<Longrightarrow> me_step kd st st'"
| step_reset: "me_step kd st (st\<lparr>new_coloring := False\<rparr>)"

abbreviation me_steps :: "knot_dict \<Rightarrow> me_state \<Rightarrow> me_state \<Rightarrow> bool" where
  "me_steps kd \<equiv> (me_step kd)\<^sup>*\<^sup>*"

lemma me_step_parts_inv: "me_step kd st st' \<Longrightarrow> parts_inv st \<Longrightarrow> parts_inv st'"
proof (induction rule: me_step.induct)
  case (step_crossing s st t cs c st')
  from color_crossing_parts_inv[OF step_crossing(5,4)] show ?case .
next
  case (step_reset st)
  then show ?case by (simp add: parts_inv_def)
qed

lemma me_steps_parts_inv: "me_steps kd st st' \<Longrightarrow> parts_inv st \<Longrightarrow> parts_inv st'"
  by (induction rule: rtranclp_induct) (auto intro: me_step_parts_inv)

lemma me_step_keys:
  "me_step kd st st' \<Longrightarrow> parts_inv st \<Longrightarrow>
     map fst (strand_colors_dict st') = map fst (strand_colors_dict st)"
proof (induction rule: me_step.induct)
  case (step_crossing s st t cs c st')
  from color_crossing_keys[OF step_crossing(5,4)] show ?case .
next
  case (step_reset st)
  then show ?case by simp
qed

lemma me_steps_keys:
  "me_steps kd st st' \<Longrightarrow> parts_inv st \<Longrightarrow>
     map fst (strand_colors_dict st') = map fst (strand_colors_dict st)"
proof (induction rule: rtranclp_induct)
  case base
  then show ?case by simp
next
  case (step y z)
  from me_steps_parts_inv[OF step(1) step(4)] have "parts_inv y" .
  from me_step_keys[OF step(2) this] step(3)[OF step(4)] show ?case by simp
qed

lemma me_step_grows:
  "me_step kd st st' \<Longrightarrow> parts_inv st \<Longrightarrow> (k, l) \<in> set (strand_colors_dict st) \<Longrightarrow>
     \<exists>l'. (k, l') \<in> set (strand_colors_dict st') \<and> prefix l l'"
proof (induction rule: me_step.induct)
  case (step_crossing s st t cs c st')
  from color_crossing_grows[OF step_crossing(5,4,6)] show ?case .
next
  case (step_reset st)
  then show ?case by auto
qed

lemma me_steps_grows:
  "me_steps kd st st' \<Longrightarrow> parts_inv st \<Longrightarrow> (k, l) \<in> set (strand_colors_dict st) \<Longrightarrow>
     \<exists>l'. (k, l') \<in> set (strand_colors_dict st') \<and> prefix l l'"
proof (induction rule: rtranclp_induct)
  case base
  then show ?case by auto
next
  case (step y z)
  from step(3)[OF step(4,5)] obtain l1 where
    a: "(k, l1) \<in> set (strand_colors_dict y)" and b: "prefix l l1" by auto
  from me_steps_parts_inv[OF step(1) step(4)] have "parts_inv y" .
  from me_step_grows[OF step(2) this a] obtain l' where
    "(k, l') \<in> set (strand_colors_dict z)" "prefix l1 l'" by auto
  with b show ?case by (auto intro: prefix_order.trans)
qed

text \<open>The loops only take such steps.\<close>

lemma crossing_loop_steps:
  assumes "crossing_loop st cs' = Inr st'" "parts_inv st"
    "s \<in> set (colored_set (strand_colors_dict st))" "map_of kd s = Some (t, cs)"
    "set cs' \<subseteq> set cs"
  shows "me_steps kd st st'"
  using assms(1,2,3,5)
proof (induction cs' arbitrary: st)
  case Nil
  then show ?case by simp
next
  case (Cons c cs')
  from Cons.prems(1) obtain st1 where 1: "color_crossing st c = Inr st1"
    and 2: "crossing_loop st1 cs' = Inr st'"
    by (auto split: sum.splits)
  from Cons.prems(4) have c: "c \<in> set cs" by simp
  have s1: "me_step kd st st1" by (rule step_crossing[OF Cons.prems(3) assms(4) c 1])
  have p1: "parts_inv st1" by (rule color_crossing_parts_inv[OF Cons.prems(2) 1])
  from color_crossing_colored_mono[OF Cons.prems(2) 1] Cons.prems(2,3) p1
  have "s \<in> set (colored_set (strand_colors_dict st1))" by (auto simp: parts_inv_def)
  from Cons.IH[OF 2 p1 this] Cons.prems(4) have "me_steps kd st1 st'" by simp
  with s1 show ?case by (rule converse_rtranclp_into_rtranclp)
qed

lemma strand_loop_steps:
  "strand_loop kd seed j st = Inr st' \<Longrightarrow> parts_inv st \<Longrightarrow> me_steps kd st st'"
proof (induction kd seed j st rule: strand_loop.induct)
  case (1 kd seed j st)
  note run = "1.prems"(1)[unfolded strand_loop.simps[of kd seed j st]]
  show ?case
  proof (cases "map_of (strand_colors_dict st) seed")
    case None
    with run show ?thesis by simp
  next
    case (Some l)
    show ?thesis
    proof (cases "j < length l")
      case False
      with Some run show ?thesis by simp
    next
      case True
      with Some run obtain t cs st1 where
        a: "map_of kd (l ! j) = Some (t, cs)" and b: "crossing_loop st cs = Inr st1"
        and c: "strand_loop kd seed (j + 1) st1 = Inr st'"
        by (auto split: option.splits sum.splits)
      from map_of_SomeD[OF Some] True
      have m: "l ! j \<in> set (colored_set (strand_colors_dict st))"
        by (auto intro: colored_set_mem)
      from crossing_loop_steps[OF b "1.prems"(2) m a] have s1: "me_steps kd st st1" by simp
      from me_steps_parts_inv[OF s1 "1.prems"(2)] have p1: "parts_inv st1" .
      from "1.IH"[OF Some True a refl b c p1] s1 show ?thesis by simp
    qed
  qed
qed

lemma seeds_loop_steps:
  "seeds_loop kd ks st = Inr st' \<Longrightarrow> parts_inv st \<Longrightarrow> me_steps kd st st'"
proof (induction ks arbitrary: st)
  case Nil
  then show ?case by simp
next
  case (Cons k ks)
  from Cons.prems(1) obtain st1 where a: "strand_loop kd k 0 st = Inr st1"
    and b: "seeds_loop kd ks st1 = Inr st'"
    by (auto split: sum.splits)
  from strand_loop_steps[OF a Cons.prems(2)] have s1: "me_steps kd st st1" .
  from Cons.IH[OF b me_steps_parts_inv[OF s1 Cons.prems(2)]] s1 show ?case by simp
qed

lemma while_loop_steps:
  "while_loop kd st = Inr st' \<Longrightarrow> parts_inv st \<Longrightarrow> me_steps kd st st'"
proof (induction kd st rule: while_loop.induct)
  case (1 kd st)
  note run = "1.prems"(1)[unfolded while_loop.simps[of kd st]]
  show ?case
  proof (cases "new_coloring st")
    case False
    with run show ?thesis by simp
  next
    case True
    with run obtain st1 where
      a: "seeds_loop kd (map fst (strand_colors_dict st)) (st\<lparr>new_coloring := False\<rparr>) = Inr st1"
      and b: "while_loop kd st1 = Inr st'"
      by (auto split: sum.splits)
    have s0: "me_step kd st (st\<lparr>new_coloring := False\<rparr>)" by (rule step_reset)
    from "1.prems"(2) have p0: "parts_inv (st\<lparr>new_coloring := False\<rparr>)"
      by (simp add: parts_inv_def)
    from seeds_loop_steps[OF a p0] have s1: "me_steps kd (st\<lparr>new_coloring := False\<rparr>) st1" .
    from me_steps_parts_inv[OF s1 p0] have p1: "parts_inv st1" .
    from "1.IH"[OF True a b p1] have "me_steps kd st1 st'" .
    with s0 s1 show ?thesis by simp
  qed
qed

section \<open>The initial state\<close>

lemma dict_set_keys:
  "map fst (dict_set d k v) = (if k \<in> fst ` set d then map fst d else map fst d @ [k])"
  by (induction d k v rule: dict_set.induct) auto

lemma dict_set_values: "snd ` set (dict_set d k v) \<subseteq> insert v (snd ` set d)"
  by (induction d k v rule: dict_set.induct) auto

lemma dict_set_key_set: "fst ` set (dict_set d k v) = insert k (fst ` set d)"
  by (induction d k v rule: dict_set.induct) auto

lemma fold_dict_set:
  "distinct (map fst d) \<Longrightarrow> snd ` set d \<subseteq> {[]} \<Longrightarrow>
     distinct (map fst (fold (\<lambda>s d. dict_set d s ([]::label list)) seeds d)) \<and>
     snd ` set (fold (\<lambda>s d. dict_set d s ([]::label list)) seeds d) \<subseteq> {[]} \<and>
     fst ` set (fold (\<lambda>s d. dict_set d s ([]::label list)) seeds d) = fst ` set d \<union> set seeds"
proof (induction seeds arbitrary: d)
  case Nil
  then show ?case by simp
next
  case (Cons s seeds)
  have 1: "distinct (map fst (dict_set d s []))"
    using Cons.prems(1) by (auto simp: dict_set_keys)
  have 2: "snd ` set (dict_set d s []) \<subseteq> {[]}"
    using dict_set_values[of d s "[]"] Cons.prems(2) by auto
  from Cons.IH[OF 1 2] show ?case by (simp add: dict_set_key_set)
qed

definition seed_keys :: "label list \<Rightarrow> label list" where
  "seed_keys seeds =
     map fst (fold (\<lambda>strand d. dict_set d strand ([]::label list)) seeds [])"

lemma init_dict:
  "strand_colors_dict (init_state seeds) = map (\<lambda>k. (k, [k])) (seed_keys seeds)"
proof -
  let ?d = "fold (\<lambda>strand d. dict_set d strand ([]::label list)) seeds []"
  from fold_dict_set[of "[]" seeds] have "snd ` set ?d \<subseteq> {[]}" by simp
  then have "map (\<lambda>(seed, l). (seed, l @ [seed])) ?d = map (\<lambda>k. (k, [k])) (map fst ?d)"
    by (induction ?d) auto
  then show ?thesis by (simp add: init_state_def seed_keys_def)
qed

lemma seed_keys_props: "distinct (seed_keys seeds)" "set (seed_keys seeds) = set seeds"
  using fold_dict_set[of "[]" seeds] by (simp_all add: seed_keys_def)

lemma seed_keys_distinct: "distinct seeds \<Longrightarrow> seed_keys seeds = seeds"
proof -
  have "distinct (map fst d @ seeds) \<Longrightarrow>
      map fst (fold (\<lambda>strand d. dict_set d strand ([]::label list)) seeds d) = map fst d @ seeds"
    for d
  proof (induction seeds arbitrary: d)
    case Nil
    then show ?case by simp
  next
    case (Cons s seeds)
    from Cons.prems have "map fst (dict_set d s []) = map fst d @ [s]"
      by (auto simp: dict_set_keys)
    with Cons.IH[of "dict_set d s []"] Cons.prems show ?case by simp
  qed
  from this[of "[]"] show "distinct seeds \<Longrightarrow> seed_keys seeds = seeds"
    by (simp add: seed_keys_def)
qed

lemma colored_set_singletons: "colored_set (map (\<lambda>k. (k, [k])) ks) = ks"
  by (induction ks) (auto simp: colored_set_Cons)

lemma init_parts_inv: "parts_inv (init_state seeds)"
  using seed_keys_props[of seeds]
  by (simp add: parts_inv_def init_dict colored_set_singletons comp_def)
    (simp add: init_state_def)

section \<open>The fixed point\<close>

definition balanced :: "me_state \<Rightarrow> crossing \<Rightarrow> bool" where
  "balanced st c \<longleftrightarrow> (fst c \<in> set (colored_strands st)) = (snd c \<in> set (colored_strands st))"

definition stable :: "knot_dict \<Rightarrow> me_state \<Rightarrow> bool" where
  "stable kd st \<longleftrightarrow>
     (\<forall>s \<in> set (colored_set (strand_colors_dict st)). \<forall>t cs. map_of kd s = Some (t, cs) \<longrightarrow>
        (\<forall>c \<in> set cs. balanced st c))"

lemma color_crossing_quiet:
  "color_crossing st c = Inr st' \<Longrightarrow> \<not> new_coloring st' \<Longrightarrow> st' = st \<and> balanced st c"
  by (auto simp: color_crossing_def balanced_def split: if_splits dest: assign_colored)

lemma crossing_loop_quiet:
  "crossing_loop st cs = Inr st' \<Longrightarrow> \<not> new_coloring st' \<Longrightarrow>
     st' = st \<and> (\<forall>c \<in> set cs. balanced st c)"
proof (induction cs arbitrary: st)
  case Nil
  then show ?case by simp
next
  case (Cons c cs)
  from Cons.prems(1) obtain st1 where 1: "color_crossing st c = Inr st1"
    and 2: "crossing_loop st1 cs = Inr st'"
    by (auto split: sum.splits)
  from Cons.IH[OF 2 Cons.prems(2)] have a: "st' = st1" and b: "\<forall>c \<in> set cs. balanced st1 c"
    by auto
  from color_crossing_quiet[OF 1] Cons.prems(2) a have "st1 = st" "balanced st c" by auto
  with a b show ?case by simp
qed

lemma strand_loop_quiet:
  "strand_loop kd seed j st = Inr st' \<Longrightarrow> \<not> new_coloring st' \<Longrightarrow>
     st' = st \<and>
     (\<forall>l. map_of (strand_colors_dict st) seed = Some l \<longrightarrow>
        (\<forall>i. j \<le> i \<and> i < length l \<longrightarrow>
           (\<forall>t cs. map_of kd (l ! i) = Some (t, cs) \<longrightarrow> (\<forall>c \<in> set cs. balanced st c))))"
proof (induction kd seed j st rule: strand_loop.induct)
  case (1 kd seed j st)
  note run = "1.prems"(1)[unfolded strand_loop.simps[of kd seed j st]]
  show ?case
  proof (cases "map_of (strand_colors_dict st) seed")
    case None
    with run show ?thesis by simp
  next
    case (Some l)
    show ?thesis
    proof (cases "j < length l")
      case False
      with Some run show ?thesis by auto
    next
      case True
      with Some run obtain t cs st1 where
        a: "map_of kd (l ! j) = Some (t, cs)" and b: "crossing_loop st cs = Inr st1"
        and c: "strand_loop kd seed (j + 1) st1 = Inr st'"
        by (auto split: option.splits sum.splits)
      from "1.IH"[OF Some True a refl b c "1.prems"(2)]
      have e: "st' = st1" and f: "\<forall>l. map_of (strand_colors_dict st1) seed = Some l \<longrightarrow>
        (\<forall>i. j + 1 \<le> i \<and> i < length l \<longrightarrow>
           (\<forall>t cs. map_of kd (l ! i) = Some (t, cs) \<longrightarrow> (\<forall>c \<in> set cs. balanced st1 c)))"
        by auto
      from crossing_loop_quiet[OF b] "1.prems"(2) e
      have g: "st1 = st" and h: "\<forall>c \<in> set cs. balanced st c" by auto
      have "\<forall>c \<in> set cs'. balanced st c"
        if "j \<le> i" "i < length l" "map_of kd (l ! i) = Some (t', cs')" for i t' cs'
      proof (cases "i = j")
        case True
        with that a h show ?thesis by simp
      next
        case False
        with that have "j + 1 \<le> i" by simp
        with f[unfolded g] Some that show ?thesis by blast
      qed
      with e g Some show ?thesis by auto
    qed
  qed
qed

lemma seeds_loop_quiet:
  "seeds_loop kd ks st = Inr st' \<Longrightarrow> \<not> new_coloring st' \<Longrightarrow>
     st' = st \<and>
     (\<forall>seed \<in> set ks. \<forall>l. map_of (strand_colors_dict st) seed = Some l \<longrightarrow>
        (\<forall>s \<in> set l. \<forall>t cs. map_of kd s = Some (t, cs) \<longrightarrow> (\<forall>c \<in> set cs. balanced st c)))"
proof (induction ks arbitrary: st)
  case Nil
  then show ?case by simp
next
  case (Cons k ks)
  from Cons.prems(1) obtain st1 where a: "strand_loop kd k 0 st = Inr st1"
    and b: "seeds_loop kd ks st1 = Inr st'"
    by (auto split: sum.splits)
  from Cons.IH[OF b Cons.prems(2)] have e: "st' = st1"
    and f: "\<forall>seed \<in> set ks. \<forall>l. map_of (strand_colors_dict st1) seed = Some l \<longrightarrow>
        (\<forall>s \<in> set l. \<forall>t cs. map_of kd s = Some (t, cs) \<longrightarrow> (\<forall>c \<in> set cs. balanced st1 c))"
    by auto
  from strand_loop_quiet[OF a] Cons.prems(2) e have g: "st1 = st"
    and h: "\<forall>l. map_of (strand_colors_dict st) k = Some l \<longrightarrow>
        (\<forall>i. 0 \<le> i \<and> i < length l \<longrightarrow>
           (\<forall>t cs. map_of kd (l ! i) = Some (t, cs) \<longrightarrow> (\<forall>c \<in> set cs. balanced st c)))"
    by auto
  have "\<forall>c \<in> set cs. balanced st c"
    if "map_of (strand_colors_dict st) k = Some l" "s \<in> set l" "map_of kd s = Some (t, cs)"
    for l s t cs
  proof -
    from that(2) obtain i where "i < length l" "l ! i = s" by (auto simp: in_set_conv_nth)
    with h that show ?thesis by blast
  qed
  with e g f show ?case by auto
qed

lemma while_loop_stable:
  "while_loop kd st = Inr st' \<Longrightarrow> new_coloring st \<Longrightarrow> parts_inv st \<Longrightarrow>
     stable kd st' \<and> \<not> new_coloring st' \<and>
     seeds_loop kd (map fst (strand_colors_dict st')) st' = Inr st'"
proof (induction kd st rule: while_loop.induct)
  case (1 kd st)
  note run = "1.prems"(1)[unfolded while_loop.simps[of kd st]]
  let ?st0 = "st\<lparr>new_coloring := False\<rparr>"
  from run "1.prems"(2) obtain st1 where
    a: "seeds_loop kd (map fst (strand_colors_dict st)) ?st0 = Inr st1"
    and b: "while_loop kd st1 = Inr st'"
    by (auto split: sum.splits)
  from "1.prems"(3) have p0: "parts_inv ?st0" by (simp add: parts_inv_def)
  from me_steps_parts_inv[OF seeds_loop_steps[OF a p0] p0] have p1: "parts_inv st1" .
  show ?case
  proof (cases "new_coloring st1")
    case True
    from "1.IH"[OF "1.prems"(2) a b True p1] show ?thesis .
  next
    case False
    with b have e: "st' = st1" by (simp add: while_loop.simps[of kd st1])
    from seeds_loop_quiet[OF a False] have g: "st1 = ?st0"
      and h: "\<forall>seed \<in> set (map fst (strand_colors_dict st)). \<forall>l.
        map_of (strand_colors_dict ?st0) seed = Some l \<longrightarrow>
        (\<forall>s \<in> set l. \<forall>t cs. map_of kd s = Some (t, cs) \<longrightarrow> (\<forall>c \<in> set cs. balanced ?st0 c))"
      by auto
    have "stable kd ?st0"
      unfolding stable_def
    proof (intro ballI allI impI)
      fix s t cs c
      assume s: "s \<in> set (colored_set (strand_colors_dict ?st0))"
        and m: "map_of kd s = Some (t, cs)" and c: "c \<in> set cs"
      from colored_set_memD[OF s] obtain k l where
        kl: "(k, l) \<in> set (strand_colors_dict st)" "s \<in> set l" by auto
      from p0 kl(1) have "map_of (strand_colors_dict ?st0) k = Some l"
        by (auto simp: parts_inv_def)
      moreover from kl(1) have "k \<in> set (map fst (strand_colors_dict st))" by force
      ultimately show "balanced ?st0 c" using h kl(2) m c by blast
    qed
    moreover from a g have "seeds_loop kd (map fst (strand_colors_dict ?st0)) ?st0 = Inr ?st0"
      by simp
    ultimately show ?thesis using e g by simp
  qed
qed

section \<open>No KeyError on a closed diagram\<close>

definition closed_kd :: "knot_dict \<Rightarrow> bool" where
  "closed_kd kd \<longleftrightarrow> kd_labels kd \<subseteq> fst ` set kd"

definition good :: "knot_dict \<Rightarrow> me_state \<Rightarrow> bool" where
  "good kd st \<longleftrightarrow> parts_inv st \<and> set (colored_strands st) \<subseteq> fst ` set kd"

lemma color_crossing_colored_bound:
  "color_crossing st c = Inr st' \<Longrightarrow>
     set (colored_strands st') \<subseteq> set (colored_strands st) \<union> {fst c, snd c}"
  by (auto simp: color_crossing_def split: if_splits dest!: assign_colored)

lemma me_step_good:
  assumes "closed_kd kd" "me_step kd st st'" "good kd st"
  shows "good kd st'"
  using assms(2,3)
proof (induction rule: me_step.induct)
  case (step_crossing s st t cs c st')
  from kd_labels_lookup[OF step_crossing(2)] step_crossing(3) assms(1)
  have "fst c \<in> fst ` set kd" "snd c \<in> fst ` set kd" by (auto simp: closed_kd_def)
  with color_crossing_colored_bound[OF step_crossing(4)] step_crossing(5)
    color_crossing_parts_inv[OF _ step_crossing(4)]
  show ?case by (auto simp: good_def)
next
  case (step_reset st)
  then show ?case by (simp add: good_def parts_inv_def)
qed

lemma me_steps_good: "me_steps kd st st' \<Longrightarrow> closed_kd kd \<Longrightarrow> good kd st \<Longrightarrow> good kd st'"
  by (induction rule: rtranclp_induct) (auto intro: me_step_good)

lemma crossing_loop_total: "parts_inv st \<Longrightarrow> \<exists>st'. crossing_loop st cs = Inr st'"
proof (induction cs arbitrary: st)
  case Nil
  then show ?case by simp
next
  case (Cons c cs)
  from color_crossing_total[OF Cons.prems, of c] obtain st1 where
    1: "color_crossing st c = Inr st1" by auto
  from Cons.IH[OF color_crossing_parts_inv[OF Cons.prems 1]] 1 show ?case by simp
qed

lemma strand_loop_total:
  "closed_kd kd \<Longrightarrow> good kd st \<Longrightarrow> seed \<in> fst ` set (strand_colors_dict st) \<Longrightarrow>
     \<exists>st'. strand_loop kd seed j st = Inr st'"
proof (induction kd seed j st rule: strand_loop.induct)
  case (1 kd seed j st)
  from "1.prems"(2) have p: "parts_inv st" by (simp add: good_def)
  from "1.prems"(3) obtain l where Some: "map_of (strand_colors_dict st) seed = Some l"
    by (cases "map_of (strand_colors_dict st) seed") (auto simp: map_of_eq_None_iff)
  show ?case
  proof (cases "j < length l")
    case False
    with Some show ?thesis by (simp add: strand_loop.simps[of kd seed j st])
  next
    case True
    from map_of_SomeD[OF Some] True
    have m: "l ! j \<in> set (colored_set (strand_colors_dict st))"
      by (auto intro: colored_set_mem)
    with "1.prems"(2) have "l ! j \<in> fst ` set kd" by (auto simp: good_def parts_inv_def)
    then obtain t cs where a: "map_of kd (l ! j) = Some (t, cs)"
      by (cases "map_of kd (l ! j)") (auto simp: map_of_eq_None_iff)
    from crossing_loop_total[OF p, of cs] obtain st1 where
      b: "crossing_loop st cs = Inr st1" by auto
    from crossing_loop_steps[OF b p m a] have s1: "me_steps kd st st1" by simp
    from me_steps_good[OF s1 "1.prems"(1,2)] have g1: "good kd st1" .
    from me_steps_keys[OF s1 p] "1.prems"(3)
    have k1: "seed \<in> fst ` set (strand_colors_dict st1)" by (metis set_map)
    from "1.IH"[OF Some True a refl b "1.prems"(1) g1 k1] Some True a b
    show ?thesis by (simp add: strand_loop.simps[of kd seed j st])
  qed
qed

lemma seeds_loop_total:
  "closed_kd kd \<Longrightarrow> good kd st \<Longrightarrow> set ks \<subseteq> fst ` set (strand_colors_dict st) \<Longrightarrow>
     \<exists>st'. seeds_loop kd ks st = Inr st'"
proof (induction ks arbitrary: st)
  case Nil
  then show ?case by simp
next
  case (Cons k ks)
  from Cons.prems(2) have p: "parts_inv st" by (simp add: good_def)
  from strand_loop_total[OF Cons.prems(1,2), of k 0] Cons.prems(3) obtain st1 where
    a: "strand_loop kd k 0 st = Inr st1" by auto
  from strand_loop_steps[OF a p] have s1: "me_steps kd st st1" .
  from me_steps_keys[OF s1 p] Cons.prems(3)
  have "set ks \<subseteq> fst ` set (strand_colors_dict st1)" by (metis set_map set_subset_Cons subset_trans)
  from Cons.IH[OF Cons.prems(1) me_steps_good[OF s1 Cons.prems(1,2)] this] a
  show ?case by simp
qed

lemma while_loop_total:
  "closed_kd kd \<Longrightarrow> good kd st \<Longrightarrow> \<exists>st'. while_loop kd st = Inr st'"
proof (induction kd st rule: while_loop.induct)
  case (1 kd st)
  let ?st0 = "st\<lparr>new_coloring := False\<rparr>"
  show ?case
  proof (cases "new_coloring st")
    case False
    then show ?thesis by (simp add: while_loop.simps[of kd st])
  next
    case True
    from "1.prems"(2) have g0: "good kd ?st0" by (simp add: good_def parts_inv_def)
    then have p0: "parts_inv ?st0" by (simp add: good_def)
    from seeds_loop_total[OF "1.prems"(1) g0, of "map fst (strand_colors_dict st)"]
    obtain st1 where a: "seeds_loop kd (map fst (strand_colors_dict st)) ?st0 = Inr st1"
      by auto
    from me_steps_good[OF seeds_loop_steps[OF a p0] "1.prems"(1) g0] have g1: "good kd st1" .
    from "1.IH"[OF True a "1.prems"(1) g1] True a show ?thesis
      by (simp add: while_loop.simps[of kd st])
  qed
qed

lemma init_good: "set seeds \<subseteq> fst ` set kd \<Longrightarrow> good kd (init_state seeds)"
  using init_parts_inv[of seeds] by (simp add: good_def) (simp add: init_state_def)

lemma maximally_extend_total:
  "closed_kd kd \<Longrightarrow> set seeds \<subseteq> fst ` set kd \<Longrightarrow> \<exists>d. maximally_extend seeds kd = Inr d"
  using while_loop_total[OF _ init_good, of kd seeds]
  by (auto simp: maximally_extend_def)

lemma maximally_extend_state:
  "maximally_extend seeds kd = Inr d \<Longrightarrow>
     \<exists>st. while_loop kd (init_state seeds) = Inr st \<and> strand_colors_dict st = d"
  by (cases "while_loop kd (init_state seeds)") (auto simp: maximally_extend_def)

lemma init_new: "new_coloring (init_state seeds)"
  by (simp add: init_state_def)

lemma init_colored: "colored_strands (init_state seeds) = seeds"
  by (simp add: init_state_def)

section \<open>The coloured set is a closure\<close>

inductive_set closure :: "knot_dict \<Rightarrow> label set \<Rightarrow> label set" for kd S where
  seed: "s \<in> S \<Longrightarrow> s \<in> closure kd S"
| fwd: "s \<in> closure kd S \<Longrightarrow> map_of kd s = Some (t, cs) \<Longrightarrow> (a, b) \<in> set cs \<Longrightarrow>
        a \<in> closure kd S \<Longrightarrow> b \<in> closure kd S"
| bwd: "s \<in> closure kd S \<Longrightarrow> map_of kd s = Some (t, cs) \<Longrightarrow> (a, b) \<in> set cs \<Longrightarrow>
        b \<in> closure kd S \<Longrightarrow> a \<in> closure kd S"

lemma me_step_sound:
  assumes "me_step kd st st'" "parts_inv st" "set (colored_strands st) \<subseteq> closure kd S"
  shows "set (colored_strands st') \<subseteq> closure kd S"
  using assms
proof (induction rule: me_step.induct)
  case (step_crossing s st t cs c st')
  from step_crossing(1,5) have s: "s \<in> set (colored_strands st)" by (simp add: parts_inv_def)
  obtain a b where c: "c = (a, b)" by (cases c)
  from step_crossing(5,4) show ?case
  proof (cases rule: color_crossing_cases)
    case same
    with step_crossing(6) show ?thesis by simp
  next
    case fwd
    from step_crossing(6) s have 1: "s \<in> closure kd S" by auto
    from step_crossing(6) fwd(1) have 2: "a \<in> closure kd S" by (auto simp: c)
    from step_crossing(3) have 3: "(a, b) \<in> set cs" by (simp add: c)
    from closure.fwd[OF 1 step_crossing(2) 3 2] have "b \<in> closure kd S" .
    with fwd(3) step_crossing(6) show ?thesis by (simp add: c)
  next
    case bwd
    from step_crossing(6) s have 1: "s \<in> closure kd S" by auto
    from step_crossing(6) bwd(2) have 2: "b \<in> closure kd S" by (auto simp: c)
    from step_crossing(3) have 3: "(a, b) \<in> set cs" by (simp add: c)
    from closure.bwd[OF 1 step_crossing(2) 3 2] have "a \<in> closure kd S" .
    with bwd(3) step_crossing(6) show ?thesis by (simp add: c)
  qed
next
  case (step_reset st)
  then show ?case by simp
qed

lemma me_steps_sound:
  "me_steps kd st st' \<Longrightarrow> parts_inv st \<Longrightarrow> set (colored_strands st) \<subseteq> closure kd S \<Longrightarrow>
     set (colored_strands st') \<subseteq> closure kd S"
proof (induction rule: rtranclp_induct)
  case base
  then show ?case by simp
next
  case (step y z)
  from me_step_sound[OF step(2) me_steps_parts_inv[OF step(1) step(4)] step(3)[OF step(4,5)]]
  show ?case .
qed

lemma me_step_colored_mono:
  "me_step kd st st' \<Longrightarrow> parts_inv st \<Longrightarrow> set (colored_strands st) \<subseteq> set (colored_strands st')"
proof (induction rule: me_step.induct)
  case (step_crossing s st t cs c st')
  from color_crossing_colored_mono[OF step_crossing(5,4)] show ?case .
next
  case (step_reset st)
  then show ?case by simp
qed

lemma me_steps_colored_mono:
  "me_steps kd st st' \<Longrightarrow> parts_inv st \<Longrightarrow> set (colored_strands st) \<subseteq> set (colored_strands st')"
proof (induction rule: rtranclp_induct)
  case base
  then show ?case by simp
next
  case (step y z)
  from me_step_colored_mono[OF step(2) me_steps_parts_inv[OF step(1) step(4)]] step(3)[OF step(4)]
  show ?case by simp
qed

lemma stable_complete:
  assumes "stable kd st" "parts_inv st" "S \<subseteq> set (colored_strands st)"
  shows "closure kd S \<subseteq> set (colored_strands st)"
proof
  fix x assume "x \<in> closure kd S"
  then show "x \<in> set (colored_strands st)"
  proof (induction rule: closure.induct)
    case (seed s)
    with assms(3) show ?case by auto
  next
    case (fwd s t cs a b)
    from fwd.IH(1) assms(2) have "s \<in> set (colored_set (strand_colors_dict st))"
      by (simp add: parts_inv_def)
    with assms(1) fwd.hyps(2,3) have "balanced st (a, b)" unfolding stable_def by blast
    with fwd.IH(2) show ?case by (simp add: balanced_def)
  next
    case (bwd s t cs a b)
    from bwd.IH(1) assms(2) have "s \<in> set (colored_set (strand_colors_dict st))"
      by (simp add: parts_inv_def)
    with assms(1) bwd.hyps(2,3) have "balanced st (a, b)" unfolding stable_def by blast
    with bwd.IH(2) show ?case by (simp add: balanced_def)
  qed
qed

lemma maximally_extend_closure:
  assumes "maximally_extend seeds kd = Inr d"
  shows "set (colored_set d) = closure kd (set seeds)"
proof -
  from maximally_extend_state[OF assms] obtain st where
    w: "while_loop kd (init_state seeds) = Inr st" and d: "strand_colors_dict st = d" by auto
  note p0 = init_parts_inv[of seeds]
  from while_loop_steps[OF w p0] have steps: "me_steps kd (init_state seeds) st" .
  from me_steps_parts_inv[OF steps p0] have p: "parts_inv st" .
  have "set (colored_strands (init_state seeds)) \<subseteq> closure kd (set seeds)"
    by (auto simp: init_colored intro: closure.seed)
  from me_steps_sound[OF steps p0 this] have 1: "set (colored_strands st) \<subseteq> closure kd (set seeds)" .
  from me_steps_colored_mono[OF steps p0] have "set seeds \<subseteq> set (colored_strands st)"
    by (simp add: init_colored)
  from stable_complete[OF _ p this] while_loop_stable[OF w init_new p0]
  have 2: "closure kd (set seeds) \<subseteq> set (colored_strands st)" by simp
  from 1 2 p d show ?thesis by (auto simp: parts_inv_def)
qed

definition kd_crossings :: "knot_dict \<Rightarrow> label \<Rightarrow> crossing set" where
  "kd_crossings kd s = (case map_of kd s of None \<Rightarrow> {} | Some (t, cs) \<Rightarrow> set cs)"

lemma closure_mono_kd:
  assumes "\<forall>s. kd_crossings kd s \<subseteq> kd_crossings kd' s"
  shows "closure kd S \<subseteq> closure kd' S"
proof
  fix x assume "x \<in> closure kd S"
  then show "x \<in> closure kd' S"
  proof (induction rule: closure.induct)
    case (seed s)
    then show ?case by (rule closure.seed)
  next
    case (fwd s t cs a b)
    from fwd.hyps(2,3) have "(a, b) \<in> kd_crossings kd s"
      by (simp add: kd_crossings_def)
    with assms have "(a, b) \<in> kd_crossings kd' s" by blast
    then obtain t' cs' where "map_of kd' s = Some (t', cs')" "(a, b) \<in> set cs'"
      by (auto simp: kd_crossings_def split: option.splits)
    from closure.fwd[OF fwd.IH(1) this fwd.IH(2)] show ?case .
  next
    case (bwd s t cs a b)
    from bwd.hyps(2,3) have "(a, b) \<in> kd_crossings kd s"
      by (simp add: kd_crossings_def)
    with assms have "(a, b) \<in> kd_crossings kd' s" by blast
    then obtain t' cs' where "map_of kd' s = Some (t', cs')" "(a, b) \<in> set cs'"
      by (auto simp: kd_crossings_def split: option.splits)
    from closure.bwd[OF bwd.IH(1) this bwd.IH(2)] show ?case .
  qed
qed

section \<open>The cinquefoil\<close>

abbreviation cinquefoil :: "int list" where
  "cinquefoil \<equiv> [-1,2,-3,4,-5,1,-2,3,-4,5]"

abbreviation cinquefoil_kd :: knot_dict where
  "cinquefoil_kd \<equiv>
     [(''A'', [-1, 2, -3], [(''D'', ''C'')]), (''B'', [-3, 4, -5], [(''E'', ''D'')]),
      (''C'', [-5, 1, -2], [(''A'', ''E'')]), (''D'', [-2, 3, -4], [(''B'', ''A'')]),
      (''E'', [-4, 5, -1], [(''C'', ''B'')])]"

lemma scan_cinquefoil:
  "scan_strands cinquefoil 0 [] =
     Some (Inr [[-1, 2, -3], [-3, 4, -5], [-5, 1, -2], [-2, 3, -4], [-4, 5, -1]])"
  by (simp add: scan_eval)

lemma kd_cinquefoil: "create_knot_dictionary id cinquefoil = Some (Inr cinquefoil_kd)"
  by (simp add: kd_eval scan_cinquefoil letter_list_eq)

lemma while_cinquefoil_ABC:
  "while_loop cinquefoil_kd (init_state [''A'', ''B'', ''C'']) =
     Inr \<lparr>strand_colors_dict = [(''A'', [''A'']), (''B'', [''B'']), (''C'', [''C'', ''D'', ''E''])],
          colored_strands = [''A'', ''B'', ''C'', ''D'', ''E''], new_coloring = False\<rparr>"
  by (simp add: me_eval)

lemma while_cinquefoil_CBA:
  "while_loop cinquefoil_kd (init_state [''C'', ''B'', ''A'']) =
     Inr \<lparr>strand_colors_dict = [(''C'', [''C'']), (''B'', [''B'']), (''A'', [''A'', ''E'', ''D''])],
          colored_strands = [''C'', ''B'', ''A'', ''E'', ''D''], new_coloring = False\<rparr>"
  by (simp add: me_eval)

lemma me_cinquefoil_ABC:
  "maximally_extend [''A'', ''B'', ''C''] cinquefoil_kd =
     Inr [(''A'', [''A'']), (''B'', [''B'']), (''C'', [''C'', ''D'', ''E''])]"
  by (simp add: maximally_extend_def while_cinquefoil_ABC)

lemma me_cinquefoil_CBA:
  "maximally_extend [''C'', ''B'', ''A''] cinquefoil_kd =
     Inr [(''C'', [''C'']), (''B'', [''B'']), (''A'', [''A'', ''E'', ''D''])]"
  by (simp add: maximally_extend_def while_cinquefoil_CBA)

lemma closed_cinquefoil: "closed_kd cinquefoil_kd"
  by (simp add: closed_kd_def kd_labels_def)


section \<open>The propagation rule and its fixed point\<close>

lemma find_color_part:
  assumes "distinct (map fst d)" "distinct (colored_set d)" "(k, l) \<in> set d" "x \<in> set l"
  shows "find_color x d = k"
proof -
  from colored_set_mem[OF assms(3,4)] have "x \<in> set (colored_set d)" .
  from find_color_in[OF this] obtain l0 where
    a: "(find_color x d, l0) \<in> set d" and b: "x \<in> set l0" by auto
  from part_unique[OF assms(2) a assms(3) b assms(4) assms(1)] show ?thesis by simp
qed

lemma app_find_color:
  assumes "distinct (map fst d)" "distinct (colored_set d)" "src \<in> set (colored_set d)"
  shows "app d (find_color src d) x =
     map (\<lambda>(k, l). if src \<in> set l then (k, l @ [x]) else (k, l)) d"
  unfolding app_def
proof (rule map_cong[OF refl])
  fix p assume p: "p \<in> set d"
  obtain k l where kl: "p = (k, l)" by (cases p)
  from find_color_in[OF assms(3)] obtain l0 where
    a: "(find_color src d, l0) \<in> set d" and b: "src \<in> set l0" by auto
  have "(k = find_color src d) = (src \<in> set l)"
  proof
    assume "k = find_color src d"
    with a p kl assms(1) have "l = l0" by (auto dest: eq_key_imp_eq_value)
    with b show "src \<in> set l" by simp
  next
    assume "src \<in> set l"
    from find_color_part[OF assms(1,2) p[unfolded kl] this] show "k = find_color src d" by simp
  qed
  then show "(case p of (k, l) \<Rightarrow> if k = find_color src d then (k, l @ [x]) else (k, l)) =
     (case p of (k, l) \<Rightarrow> if src \<in> set l then (k, l @ [x]) else (k, l))"
    by (simp add: kl)
qed

text \<open>
  The rule in the words of the specification. \<open>receives st src x st'\<close>: the uncoloured
  strand \<open>x\<close> joins the part that holds \<open>src\<close>, and nothing else changes.
\<close>

definition receives :: "me_state \<Rightarrow> label \<Rightarrow> label \<Rightarrow> me_state \<Rightarrow> bool" where
  "receives st src x st' \<longleftrightarrow>
     strand_colors_dict st' =
       map (\<lambda>(k, l). if src \<in> set l then (k, l @ [x]) else (k, l)) (strand_colors_dict st) \<and>
     colored_strands st' = colored_strands st @ [x] \<and> new_coloring st'"

definition propagation_rule :: "me_state \<Rightarrow> crossing \<Rightarrow> me_state \<Rightarrow> bool" where
  "propagation_rule st c st' \<longleftrightarrow>
     (if is_colored (fst c) (strand_colors_dict st) \<and> \<not> is_colored (snd c) (strand_colors_dict st)
      then receives st (fst c) (snd c) st'
      else if \<not> is_colored (fst c) (strand_colors_dict st) \<and> is_colored (snd c) (strand_colors_dict st)
      then receives st (snd c) (fst c) st'
      else st' = st)"

text \<open>No crossing under a coloured strand has exactly one coloured side.\<close>

definition fixed_point :: "knot_dict \<Rightarrow> colors_dict \<Rightarrow> bool" where
  "fixed_point kd d \<longleftrightarrow>
     (\<forall>s \<in> set (colored_set d). \<forall>t cs. map_of kd s = Some (t, cs) \<longrightarrow>
        (\<forall>c \<in> set cs. is_colored (fst c) d = is_colored (snd c) d))"

lemma color_crossing_rule:
  assumes "parts_inv st"
  shows "\<exists>st'. color_crossing st c = Inr st' \<and> propagation_rule st c st'"
proof -
  from color_crossing_total[OF assms, of c] obtain st' where
    r: "color_crossing st c = Inr st'" by auto
  let ?d = "strand_colors_dict st"
  from assms have dk: "distinct (map fst ?d)" and dc: "distinct (colored_set ?d)"
    and eq: "set (colored_set ?d) = set (colored_strands st)"
    by (simp_all add: parts_inv_def)
  from assms r have "propagation_rule st c st'"
  proof (cases rule: color_crossing_cases)
    case same
    with eq show ?thesis by (auto simp: propagation_rule_def is_colored_iff)
  next
    case fwd
    from fwd(1) eq have "fst c \<in> set (colored_set ?d)" by simp
    from app_find_color[OF dk dc this, of "snd c"] fwd eq show ?thesis
      by (simp add: propagation_rule_def is_colored_iff receives_def)
  next
    case bwd
    from bwd(2) eq have "snd c \<in> set (colored_set ?d)" by simp
    from app_find_color[OF dk dc this, of "fst c"] bwd eq show ?thesis
      by (simp add: propagation_rule_def is_colored_iff receives_def)
  qed
  with r show ?thesis by auto
qed

lemma stable_fixed_point:
  assumes "stable kd st" "parts_inv st"
  shows "fixed_point kd (strand_colors_dict st)"
  using assms unfolding stable_def fixed_point_def balanced_def parts_inv_def is_colored_iff
  by simp

lemma final_parts:
  assumes "me_steps kd (init_state seeds) st" "(k, l) \<in> set (strand_colors_dict st)"
  shows "prefix [k] l"
proof -
  note p0 = init_parts_inv[of seeds]
  from me_steps_parts_inv[OF assms(1) p0] have p: "parts_inv st" .
  from assms(2) have "k \<in> set (map fst (strand_colors_dict st))" by force
  with me_steps_keys[OF assms(1) p0] have "k \<in> set (seed_keys seeds)"
    by (simp add: init_dict comp_def)
  then have "(k, [k]) \<in> set (strand_colors_dict (init_state seeds))"
    by (auto simp: init_dict)
  from me_steps_grows[OF assms(1) p0 this] obtain l' where
    a: "(k, l') \<in> set (strand_colors_dict st)" and b: "prefix [k] l'" by auto
  from p a assms(2) have "l = l'" by (auto simp: parts_inv_def dest: eq_key_imp_eq_value)
  with b show ?thesis by simp
qed

text \<open>
  C6. \<^verbatim>\<open>maximally_extend\<close> starts from the partition in which each seed is the only member
  of its own part. At every state of the run, the body of the innermost loop at a crossing
  \<open>(a, b)\<close> does what the propagation rule says: when exactly one of \<open>a\<close>, \<open>b\<close> is
  coloured, the other one joins the part of the coloured one, and otherwise (both coloured,
  also in different parts, or none) the state is unchanged. The partition returned has the
  seeds as its keys, each part begins with its seed, it is a fixed point of the rule, and
  the last pass over it made no assignment. On a diagram whose crossings name strands of the
  diagram, with seeds among its strands, a partition is returned.
\<close>

theorem C6_maximally_extend_fixed_point:
  "strand_colors_dict (init_state seeds) = map (\<lambda>k. (k, [k])) (seed_keys seeds) \<and>
   distinct (seed_keys seeds) \<and> set (seed_keys seeds) = set seeds \<and>
   (me_steps kd (init_state seeds) st \<longrightarrow>
      (\<exists>st'. color_crossing st c = Inr st' \<and> propagation_rule st c st')) \<and>
   (maximally_extend seeds kd = Inr d \<longrightarrow>
      map fst d = seed_keys seeds \<and> (\<forall>k l. (k, l) \<in> set d \<longrightarrow> prefix [k] l) \<and>
      fixed_point kd d \<and>
      (\<exists>fin. while_loop kd (init_state seeds) = Inr fin \<and> strand_colors_dict fin = d \<and>
         \<not> new_coloring fin \<and> seeds_loop kd (map fst d) fin = Inr fin)) \<and>
   (closed_kd kd \<and> set seeds \<subseteq> fst ` set kd \<longrightarrow> (\<exists>d. maximally_extend seeds kd = Inr d))"
proof (intro conjI impI)
  note p0 = init_parts_inv[of seeds]
  show "strand_colors_dict (init_state seeds) = map (\<lambda>k. (k, [k])) (seed_keys seeds)"
    by (rule init_dict)
  show "distinct (seed_keys seeds)" "set (seed_keys seeds) = set seeds"
    by (rule seed_keys_props)+
  {
    assume "me_steps kd (init_state seeds) st"
    from me_steps_parts_inv[OF this p0]
    show "\<exists>st'. color_crossing st c = Inr st' \<and> propagation_rule st c st'"
      by (rule color_crossing_rule)
  }
  {
    assume "closed_kd kd \<and> set seeds \<subseteq> fst ` set kd"
    then show "\<exists>d. maximally_extend seeds kd = Inr d"
      by (elim conjE) (rule maximally_extend_total)
  }
  assume run: "maximally_extend seeds kd = Inr d"
  from maximally_extend_state[OF run] obtain fin where
    w: "while_loop kd (init_state seeds) = Inr fin" and d: "strand_colors_dict fin = d" by auto
  from while_loop_steps[OF w p0] have steps: "me_steps kd (init_state seeds) fin" .
  from me_steps_parts_inv[OF steps p0] have p: "parts_inv fin" .
  from while_loop_stable[OF w init_new p0] have s: "stable kd fin" and n: "\<not> new_coloring fin"
    and q: "seeds_loop kd (map fst (strand_colors_dict fin)) fin = Inr fin" by auto
  from me_steps_keys[OF steps p0] show "map fst d = seed_keys seeds"
    by (simp add: d init_dict comp_def)
  from final_parts[OF steps] show "\<forall>k l. (k, l) \<in> set d \<longrightarrow> prefix [k] l"
    by (simp add: d)
  from stable_fixed_point[OF s p] show "fixed_point kd d" by (simp add: d)
  from w d n q show "\<exists>fin. while_loop kd (init_state seeds) = Inr fin \<and>
      strand_colors_dict fin = d \<and> \<not> new_coloring fin \<and> seeds_loop kd (map fst d) fin = Inr fin"
    by auto
qed

theorem C6_witness:
  "closed_kd cinquefoil_kd \<and>
   maximally_extend [''A'', ''B'', ''C''] cinquefoil_kd =
     Inr [(''A'', [''A'']), (''B'', [''B'']), (''C'', [''C'', ''D'', ''E''])] \<and>
   fixed_point cinquefoil_kd [(''A'', [''A'']), (''B'', [''B'']), (''C'', [''C'', ''D'', ''E''])] \<and>
   me_steps cinquefoil_kd (init_state [''A'', ''B'', ''C'']) (init_state [''A'', ''B'', ''C'']) \<and>
   color_crossing (init_state [''A'', ''B'', ''C'']) (''D'', ''C'') =
     Inr \<lparr>strand_colors_dict = [(''A'', [''A'']), (''B'', [''B'']), (''C'', [''C'', ''D''])],
          colored_strands = [''A'', ''B'', ''C'', ''D''], new_coloring = True\<rparr> \<and>
   propagation_rule (init_state [''A'', ''B'', ''C'']) (''D'', ''C'')
     \<lparr>strand_colors_dict = [(''A'', [''A'']), (''B'', [''B'']), (''C'', [''C'', ''D''])],
      colored_strands = [''A'', ''B'', ''C'', ''D''], new_coloring = True\<rparr>"
proof -
  let ?seeds = "[''A'', ''B'', ''C'']"
  let ?d = "[(''A'', [''A'']), (''B'', [''B'']), (''C'', [''C'', ''D'', ''E''])]"
  let ?st1 = "\<lparr>strand_colors_dict = [(''A'', [''A'']), (''B'', [''B'']), (''C'', [''C'', ''D''])],
          colored_strands = [''A'', ''B'', ''C'', ''D''], new_coloring = True\<rparr>"
  note inst = C6_maximally_extend_fixed_point[where seeds = ?seeds and kd = cinquefoil_kd
      and d = ?d and st = "init_state ?seeds" and c = "(''D'', ''C'')"]
  have r: "me_steps cinquefoil_kd (init_state ?seeds) (init_state ?seeds)" by simp
  have e: "color_crossing (init_state ?seeds) (''D'', ''C'') = Inr ?st1"
    by (simp add: me_eval)
  from inst have "fixed_point cinquefoil_kd ?d"
    using me_cinquefoil_ABC by blast
  moreover from inst r e have "propagation_rule (init_state ?seeds) (''D'', ''C'') ?st1"
    by auto
  ultimately show ?thesis using closed_cinquefoil me_cinquefoil_ABC r e by (intro conjI)
qed

section \<open>The parts stay disjoint\<close>

lemma colored_set_disjoint:
  "distinct (colored_set d) \<Longrightarrow> i < j \<Longrightarrow> j < length d \<Longrightarrow>
     set (snd (d ! i)) \<inter> set (snd (d ! j)) = {}"
proof (induction d arbitrary: i j)
  case Nil
  then show ?case by simp
next
  case (Cons a d)
  obtain k l where a: "a = (k, l)" by (cases a)
  from Cons.prems(2) obtain j' where j: "j = Suc j'" by (cases j) auto
  with Cons.prems(3) have j': "j' < length d" by simp
  from Cons.prems(1) have dj: "set l \<inter> set (colored_set d) = {}" and dd: "distinct (colored_set d)"
    by (auto simp: a colored_set_Cons)
  show ?case
  proof (cases i)
    case 0
    have "set (snd (d ! j')) \<subseteq> set (colored_set d)"
      using j' colored_set_mem[of "fst (d ! j')" "snd (d ! j')" d] by auto
    with dj show ?thesis by (auto simp: 0 j a)
  next
    case (Suc i')
    with Cons.prems(2) j have "i' < j'" by simp
    from Cons.IH[OF dd this j'] show ?thesis by (simp add: Suc j)
  qed
qed

text \<open>
  C8. A trial is a run of \<^verbatim>\<open>maximally_extend\<close> from the initial partition of its seeds; its
  steps are those of \<open>me_step\<close>: from a state of the trial, the \<^verbatim>\<open>while\<close> loop, a pass over
  the seeds and the loop over the strands of a part take only such steps. At every state
  \<open>st\<close> of a trial the keys are distinct and the parts are pairwise disjoint; and a strand
  that is in the part of \<open>k\<close> at \<open>st\<close> is, at every later state \<open>st'\<close> of the trial, still of
  colour \<open>k\<close> and in no other part.
\<close>

theorem C8_parts_disjoint_never_reassigned:
  "(me_steps kd (init_state seeds) sta \<and>
      (while_loop kd sta = Inr stb \<or> seeds_loop kd ks sta = Inr stb \<or>
       strand_loop kd seed n sta = Inr stb) \<longrightarrow>
      me_steps kd sta stb) \<and>
   (me_steps kd (init_state seeds) st \<and> me_steps kd st st' \<longrightarrow>
      distinct (map fst (strand_colors_dict st)) \<and>
      (\<forall>i j. i < j \<and> j < length (strand_colors_dict st) \<longrightarrow>
         set (snd (strand_colors_dict st ! i)) \<inter> set (snd (strand_colors_dict st ! j)) = {}) \<and>
      (\<forall>k l x. (k, l) \<in> set (strand_colors_dict st) \<and> x \<in> set l \<longrightarrow>
         find_color x (strand_colors_dict st') = k \<and>
         (\<forall>k' l'. (k', l') \<in> set (strand_colors_dict st') \<and> x \<in> set l' \<longrightarrow> k' = k)))"
proof (intro conjI impI)
  note p0 = init_parts_inv[of seeds]
  {
    assume h: "me_steps kd (init_state seeds) sta \<and>
      (while_loop kd sta = Inr stb \<or> seeds_loop kd ks sta = Inr stb \<or>
       strand_loop kd seed n sta = Inr stb)"
    then have "me_steps kd (init_state seeds) sta" by (rule conjunct1)
    from me_steps_parts_inv[OF this p0] have pa: "parts_inv sta" .
    from h have "while_loop kd sta = Inr stb \<or> seeds_loop kd ks sta = Inr stb \<or>
       strand_loop kd seed n sta = Inr stb" by (rule conjunct2)
    then show "me_steps kd sta stb"
    proof (elim disjE)
      assume "while_loop kd sta = Inr stb"
      then show ?thesis using pa by (rule while_loop_steps)
    next
      assume "seeds_loop kd ks sta = Inr stb"
      then show ?thesis using pa by (rule seeds_loop_steps)
    next
      assume "strand_loop kd seed n sta = Inr stb"
      then show ?thesis using pa by (rule strand_loop_steps)
    qed
  }
  assume "me_steps kd (init_state seeds) st \<and> me_steps kd st st'"
  then have s1: "me_steps kd (init_state seeds) st" and s2: "me_steps kd st st'" by auto
  from me_steps_parts_inv[OF s1 p0] have p: "parts_inv st" .
  from me_steps_parts_inv[OF s2 p] have p': "parts_inv st'" .
  from p show "distinct (map fst (strand_colors_dict st))" by (simp add: parts_inv_def)
  from p have dc: "distinct (colored_set (strand_colors_dict st))" by (simp add: parts_inv_def)
  show "\<forall>i j. i < j \<and> j < length (strand_colors_dict st) \<longrightarrow>
         set (snd (strand_colors_dict st ! i)) \<inter> set (snd (strand_colors_dict st ! j)) = {}"
    using colored_set_disjoint[OF dc] by blast
  show "\<forall>k l x. (k, l) \<in> set (strand_colors_dict st) \<and> x \<in> set l \<longrightarrow>
         find_color x (strand_colors_dict st') = k \<and>
         (\<forall>k' l'. (k', l') \<in> set (strand_colors_dict st') \<and> x \<in> set l' \<longrightarrow> k' = k)"
  proof (intro allI impI)
    fix k l x assume "(k, l) \<in> set (strand_colors_dict st) \<and> x \<in> set l"
    then have a: "(k, l) \<in> set (strand_colors_dict st)" and b: "x \<in> set l" by auto
    from me_steps_grows[OF s2 p a] obtain l1 where
      c: "(k, l1) \<in> set (strand_colors_dict st')" and e: "prefix l l1" by auto
    from b e have x: "x \<in> set l1" by (auto dest: set_mono_prefix)
    from p' have dk': "distinct (map fst (strand_colors_dict st'))"
      and dc': "distinct (colored_set (strand_colors_dict st'))"
      by (simp_all add: parts_inv_def)
    have "find_color x (strand_colors_dict st') = k"
      by (rule find_color_part[OF dk' dc' c x])
    moreover have "k' = k" if "(k', l') \<in> set (strand_colors_dict st') \<and> x \<in> set l'" for k' l'
      using part_unique[OF dc' _ c _ x dk', of k' l'] that by simp
    ultimately show "find_color x (strand_colors_dict st') = k \<and>
         (\<forall>k' l'. (k', l') \<in> set (strand_colors_dict st') \<and> x \<in> set l' \<longrightarrow> k' = k)"
      by blast
  qed
qed

theorem C8_witness:
  "me_steps cinquefoil_kd (init_state [''A'', ''B'', ''C''])
     \<lparr>strand_colors_dict = [(''A'', [''A'']), (''B'', [''B'']), (''C'', [''C'', ''D'', ''E''])],
      colored_strands = [''A'', ''B'', ''C'', ''D'', ''E''], new_coloring = False\<rparr> \<and>
   distinct (map fst [(''A'', [''A'']), (''B'', [''B'']), (''C'', [''C'', ''D'', ''E''])]) \<and>
   set (snd ([(''A'', [''A'']), (''B'', [''B'']), (''C'', [''C'', ''D'', ''E''])] ! 1)) \<inter>
     set (snd ([(''A'', [''A'']), (''B'', [''B'']), (''C'', [''C'', ''D'', ''E''])] ! 2)) = {} \<and>
   find_color ''C'' [(''A'', [''A'']), (''B'', [''B'']), (''C'', [''C'', ''D'', ''E''])] = ''C''"
proof -
  let ?seeds = "[''A'', ''B'', ''C'']"
  let ?d = "[(''A'', [''A'']), (''B'', [''B'']), (''C'', [''C'', ''D'', ''E''])]"
  let ?fin = "\<lparr>strand_colors_dict = ?d,
      colored_strands = [''A'', ''B'', ''C'', ''D'', ''E''], new_coloring = False\<rparr>"
  have r0: "me_steps cinquefoil_kd (init_state ?seeds) (init_state ?seeds)" by simp
  have r: "me_steps cinquefoil_kd (init_state ?seeds) ?fin"
    by (rule mp[OF C8_parts_disjoint_never_reassigned[where seeds = ?seeds
            and kd = cinquefoil_kd and sta = "init_state ?seeds" and stb = ?fin,
            THEN conjunct1] conjI[OF r0 disjI1[OF while_cinquefoil_ABC]]])
  have r1: "me_steps cinquefoil_kd ?fin ?fin" by simp
  note a = mp[OF C8_parts_disjoint_never_reassigned[where seeds = ?seeds
            and kd = cinquefoil_kd and st = ?fin and st' = ?fin, THEN conjunct2] conjI[OF r r1]]
  note b = mp[OF C8_parts_disjoint_never_reassigned[where seeds = ?seeds
            and kd = cinquefoil_kd and st = "init_state ?seeds" and st' = ?fin, THEN conjunct2]
            conjI[OF r0 r]]
  from a have 1: "distinct (map fst ?d)" by simp
  from a have "\<forall>i j. i < j \<and> j < length ?d \<longrightarrow> set (snd (?d ! i)) \<inter> set (snd (?d ! j)) = {}"
    by simp
  then have 2: "set (snd (?d ! 1)) \<inter> set (snd (?d ! 2)) = {}" by simp
  have "(''C'', [''C'']) \<in> set (strand_colors_dict (init_state ?seeds)) \<and> ''C'' \<in> set [''C'']"
    by (simp add: init_state_def)
  with b have 3: "find_color ''C'' ?d = ''C''" by simp
  from r 1 2 3 show ?thesis by (intro conjI)
qed

section \<open>The order of the visits\<close>

text \<open>
  C7 (as amended). The set of coloured strands of the final partition does not depend on the
  order of the seeds, nor on the order of the crossings in the lists of the diagram: it is
  the closure of the seeds under the propagation rule. The contents of the parts do depend
  on the order.
\<close>

theorem C7_colored_set_independent_of_order:
  assumes "set seeds = set seeds'"
    and "\<forall>s. kd_crossings kd' s = kd_crossings kd s"
    and "maximally_extend seeds kd = Inr d"
    and "maximally_extend seeds' kd' = Inr d'"
  shows "set (colored_set d) = set (colored_set d') \<and>
         set (colored_set d) = closure kd (set seeds)"
proof -
  from assms(2) have "closure kd (set seeds) \<subseteq> closure kd' (set seeds)"
    "closure kd' (set seeds) \<subseteq> closure kd (set seeds)"
    by (intro closure_mono_kd; simp)+
  with maximally_extend_closure[OF assms(3)] maximally_extend_closure[OF assms(4)] assms(1)
  show ?thesis by auto
qed

theorem C7_witness:
  "set [''A'', ''B'', ''C''] = set [''C'', ''B'', ''A''] \<and>
   maximally_extend [''A'', ''B'', ''C''] cinquefoil_kd =
     Inr [(''A'', [''A'']), (''B'', [''B'']), (''C'', [''C'', ''D'', ''E''])] \<and>
   maximally_extend [''C'', ''B'', ''A''] (rev cinquefoil_kd) =
     Inr [(''C'', [''C'']), (''B'', [''B'']), (''A'', [''A'', ''E'', ''D''])] \<and>
   set (colored_set [(''A'', [''A'']), (''B'', [''B'']), (''C'', [''C'', ''D'', ''E''])]) =
     set (colored_set [(''C'', [''C'']), (''B'', [''B'']), (''A'', [''A'', ''E'', ''D''])])"
proof -
  have s: "set [''A'', ''B'', ''C''] = set [''C'', ''B'', ''A'']" by auto
  have k: "\<forall>s. kd_crossings (rev cinquefoil_kd) s = kd_crossings cinquefoil_kd s"
    by (simp add: kd_crossings_def)
  have m: "maximally_extend [''C'', ''B'', ''A''] (rev cinquefoil_kd) =
     Inr [(''C'', [''C'']), (''B'', [''B'']), (''A'', [''A'', ''E'', ''D''])]"
    by (simp add: me_eval)
  from C7_colored_set_independent_of_order[OF s k me_cinquefoil_ABC m] s me_cinquefoil_ABC m
  show ?thesis by (intro conjI) simp_all
qed

abbreviation two_overs_kd :: knot_dict where
  "two_overs_kd \<equiv>
     [(''A'', [-1, 2, 3, -4], [(''C'', ''B''), (''D'', ''C'')]),
      (''B'', [-4, 1, -2], [(''A'', ''D'')]),
      (''C'', [-2, 4, -3], [(''B'', ''A'')]), (''D'', [-3, -1], [])]"

lemma scan_two_overs:
  "scan_strands [-1,2,3,-4,1,-2,4,-3] 0 [] =
     Some (Inr [[-1, 2, 3, -4], [-4, 1, -2], [-2, 4, -3], [-3, -1]])"
  by (simp add: scan_eval)

lemma kd_two_overs:
  "create_knot_dictionary id [-1,2,3,-4,1,-2,4,-3] = Some (Inr two_overs_kd)"
  by (simp add: kd_eval scan_two_overs letter_list_eq)

lemma me_two_overs:
  "maximally_extend [''A'', ''B'', ''D''] two_overs_kd =
     Inr [(''A'', [''A'']), (''B'', [''B'', ''C'']), (''D'', [''D''])]"
  by (simp add: me_eval)

lemma me_two_overs_swapped:
  "maximally_extend [''A'', ''B'', ''D'']
     [(''A'', [-1, 2, 3, -4], [(''D'', ''C''), (''C'', ''B'')]),
      (''B'', [-4, 1, -2], [(''A'', ''D'')]),
      (''C'', [-2, 4, -3], [(''B'', ''A'')]), (''D'', [-3, -1], [])] =
     Inr [(''A'', [''A'']), (''B'', [''B'']), (''D'', [''D'', ''C''])]"
  by (simp add: me_eval)

text \<open>
  C7 as stated fails. On the diagram of \<^verbatim>\<open>[-1, 2, -3, 4, -5, 1, -2, 3, -4, 5]\<close> the seeds
  \<open>A\<close>, \<open>B\<close>, \<open>C\<close> visited in this order give \<open>D\<close> and \<open>E\<close> to the part of \<open>C\<close>; visited in
  the order \<open>C\<close>, \<open>B\<close>, \<open>A\<close> they give them to the part of \<open>A\<close>. On the diagram of
  \<^verbatim>\<open>[-1, 2, 3, -4, 1, -2, 4, -3]\<close>, with the seeds \<open>A\<close>, \<open>B\<close>, \<open>D\<close>, the strand \<open>A\<close> is over
  the crossings \<open>(C, B)\<close> and \<open>(D, C)\<close>: visited in this order they give \<open>C\<close> to the part
  of \<open>B\<close>, in the other order to the part of \<open>D\<close>.
\<close>

theorem C7_counterexample:
  "create_knot_dictionary id [-1,2,-3,4,-5,1,-2,3,-4,5] = Some (Inr cinquefoil_kd) \<and>
   maximally_extend [''A'', ''B'', ''C''] cinquefoil_kd =
     Inr [(''A'', [''A'']), (''B'', [''B'']), (''C'', [''C'', ''D'', ''E''])] \<and>
   maximally_extend [''C'', ''B'', ''A''] cinquefoil_kd =
     Inr [(''C'', [''C'']), (''B'', [''B'']), (''A'', [''A'', ''E'', ''D''])] \<and>
   map_of [(''A'', [''A'']), (''B'', [''B'']), (''C'', [''C'', ''D'', ''E''])] ''A'' \<noteq>
   map_of [(''C'', [''C'']), (''B'', [''B'']), (''A'', [''A'', ''E'', ''D''])] ''A'' \<and>
   create_knot_dictionary id [-1,2,3,-4,1,-2,4,-3] = Some (Inr two_overs_kd) \<and>
   maximally_extend [''A'', ''B'', ''D''] two_overs_kd =
     Inr [(''A'', [''A'']), (''B'', [''B'', ''C'']), (''D'', [''D''])] \<and>
   maximally_extend [''A'', ''B'', ''D'']
     [(''A'', [-1, 2, 3, -4], [(''D'', ''C''), (''C'', ''B'')]),
      (''B'', [-4, 1, -2], [(''A'', ''D'')]),
      (''C'', [-2, 4, -3], [(''B'', ''A'')]), (''D'', [-3, -1], [])] =
     Inr [(''A'', [''A'']), (''B'', [''B'']), (''D'', [''D'', ''C''])]"
  using kd_cinquefoil me_cinquefoil_ABC me_cinquefoil_CBA kd_two_overs me_two_overs
    me_two_overs_swapped
  by simp

section \<open>Termination of the scanning loop\<close>

lemma next_index_bound: "i < length g \<Longrightarrow> (i + 1) mod length g < length g"
  by (cases g) simp_all

lemma next_under_reaches:
  "i < length g \<Longrightarrow> \<not> 0 < g ! ((i + n) mod length g) \<Longrightarrow>
     \<exists>j < length g. next_under g i = Some (Inr j) \<and> \<not> 0 < g ! j"
proof (induction n arbitrary: i)
  case 0
  then show ?case by (auto simp: next_under_stop)
next
  case (Suc n)
  show ?case
  proof (cases "0 < g ! i")
    case False
    with Suc.prems(1) show ?thesis by (auto simp: next_under_stop)
  next
    case True
    let ?i = "(i + 1) mod length g"
    from Suc.prems(1) have l: "?i < length g" by (rule next_index_bound)
    have "(?i + n) mod length g = (i + Suc n) mod length g"
      by (simp add: mod_add_left_eq)
    with Suc.prems(2) have "\<not> 0 < g ! ((?i + n) mod length g)" by simp
    from Suc.IH[OF l this] next_under_pos[OF Suc.prems(1) True] show ?thesis by simp
  qed
qed

lemma reach_index:
  assumes "i < length g" "k < length g"
  shows "(i + (k + length g - i)) mod length g = k"
  using assms by simp

lemma next_under_total:
  assumes "i < length g" "k < length g" "\<not> 0 < g ! k"
  shows "\<exists>j < length g. next_under g i = Some (Inr j) \<and> \<not> 0 < g ! j"
proof -
  from assms(3) reach_index[OF assms(1,2)]
  have "\<not> 0 < g ! ((i + (k + length g - i)) mod length g)" by simp
  from next_under_reaches[OF assms(1) this] show ?thesis .
qed

text \<open>The tuples that can be a strand of \<open>g\<close>.\<close>

definition segments :: "int list \<Rightarrow> strand set" where
  "segments g = (\<lambda>(a, b). new_strand g a b) ` ({..<length g} \<times> {..<length g})"

lemma finite_segments: "finite (segments g)"
  by (simp add: segments_def)

lemma scan_strands_total:
  assumes neg: "k < length g" "g ! k < 0"
  shows "i < length g \<Longrightarrow> \<exists>S'. scan_strands g i S = Some (Inr S')"
proof (induction "card (segments g - set S)" arbitrary: i S rule: less_induct)
  case less
  have at_under: "\<exists>S'. scan_strands g i S = Some (Inr S')" if i: "i < length g" and u: "g ! i < 0"
    for i
  proof -
    let ?i = "(i + 1) mod length g"
    from i have "?i < length g" by (rule next_index_bound)
    from next_under_total[OF this neg(1)] neg(2) obtain j where
      j: "j < length g" and n: "next_under g ?i = Some (Inr j)" by auto
    show ?thesis
    proof (cases "new_strand g i j \<in> set S")
      case True
      from scan_strands_break[OF i u n True] show ?thesis by simp
    next
      case False
      from i j have "new_strand g i j \<in> segments g" by (auto simp: segments_def)
      with False have "card (segments g - set (S @ [new_strand g i j])) < card (segments g - set S)"
        by (intro psubset_card_mono) (auto simp: finite_segments)
      from less.hyps[OF this j] scan_strands_new[OF i u n False] show ?thesis by simp
    qed
  qed
  have "\<not> 0 \<le> g ! ((i + n) mod length g) \<Longrightarrow> i < length g \<Longrightarrow>
      \<exists>S'. scan_strands g i S = Some (Inr S')" for n i
  proof (induction n arbitrary: i)
    case 0
    then show ?case by (intro at_under) auto
  next
    case (Suc n)
    show ?case
    proof (cases "g ! i < 0")
      case True
      with Suc.prems(2) show ?thesis by (intro at_under)
    next
      case False
      let ?i = "(i + 1) mod length g"
      from Suc.prems(2) have l: "?i < length g" by (rule next_index_bound)
      have "(?i + n) mod length g = (i + Suc n) mod length g"
        by (simp add: mod_add_left_eq)
      with Suc.prems(1) have "\<not> 0 \<le> g ! ((?i + n) mod length g)" by simp
      from Suc.IH[OF this l] scan_strands_skip[OF Suc.prems(2) False] show ?thesis by simp
    qed
  qed
  from this[of i "k + length g - i"] reach_index[OF less.prems neg(1)] neg(2) less.prems
  show ?case by simp
qed

lemma scan_strands_diverges:
  assumes "\<forall>x \<in> set g. \<not> x < 0" "i < length g"
  shows "scan_strands g i S = None"
proof (cases "scan_strands g i S")
  case None
  then show ?thesis .
next
  case (Some r)
  let ?P = "\<lambda>(g::int list) (i::nat) (S::strand list) (r::error + strand list).
    (\<forall>x \<in> set g. \<not> x < 0) \<longrightarrow> i < length g \<longrightarrow> False"
  have "?P g i S r"
  proof (rule scan_strands.raw_induct[where P = ?P, OF _ Some], goal_cases)
    case (1 scan g i S r)
    show ?case
    proof (intro impI)
      assume pos: "\<forall>x \<in> set g. \<not> x < 0" and i: "i < length g"
      then have "\<not> g ! i < 0" by simp
      with i 1(2) have "scan g ((i + 1) mod length g) S = Some r" by simp
      from 1(1)[OF this] pos next_index_bound[OF i] show False by simp
    qed
  qed
  with assms show ?thesis by simp
qed

lemma find_strands_returns:
  assumes "\<exists>x \<in> set g. x < 0"
  shows "\<exists>y. find_strands ord g = Some y"
proof -
  from assms obtain k where k: "k < length g" "g ! k < 0" by (auto simp: in_set_conv_nth)
  then have "0 < length g" by auto
  from scan_strands_total[OF k this, of "[]"] show ?thesis
    by (auto simp: find_strands_def)
qed

lemma find_strands_diverges:
  assumes "g \<noteq> []" "\<forall>x \<in> set g. \<not> x < 0"
  shows "find_strands ord g = None"
  using scan_strands_diverges[OF assms(2), of 0 "[]"] assms(1)
  by (simp add: find_strands_def)

text \<open>
  C10 (as amended). On a code that is not empty, \<^verbatim>\<open>find_strands\<close> terminates (it returns the
  strands, or raises IndexError when they outnumber the letters) if and only if the code has
  a negative entry. When no entry is negative, the scanning loop only advances the index
  modulo the length of the code, with the same strand set, and never returns nor raises.
  When some entry is negative, the scanning loop returns a strand set.
\<close>

theorem C10_find_strands_terminates_iff_negative_entry:
  assumes "g \<noteq> []"
  shows "((\<exists>y. find_strands ord g = Some y) \<longleftrightarrow> (\<exists>x \<in> set g. x < 0)) \<and>
    ((\<exists>x \<in> set g. x < 0) \<longrightarrow> (\<exists>S. scan_strands g 0 [] = Some (Inr S))) \<and>
    ((\<forall>x \<in> set g. \<not> x < 0) \<longrightarrow> find_strands ord g = None \<and>
       (\<forall>i S. i < length g \<longrightarrow>
          scan_strands g i S = scan_strands g ((i + 1) mod length g) S \<and>
          scan_strands g i S = None))"
proof (intro conjI impI allI)
  show "(\<exists>y. find_strands ord g = Some y) \<longleftrightarrow> (\<exists>x \<in> set g. x < 0)"
  proof
    assume r: "\<exists>y. find_strands ord g = Some y"
    show "\<exists>x \<in> set g. x < 0"
    proof (rule ccontr)
      assume "\<not> (\<exists>x \<in> set g. x < 0)"
      then have "\<forall>x \<in> set g. \<not> x < 0" by simp
      from find_strands_diverges[OF assms this, of ord] r show False by simp
    qed
  next
    assume "\<exists>x \<in> set g. x < 0"
    then show "\<exists>y. find_strands ord g = Some y" by (rule find_strands_returns)
  qed
next
  assume "\<exists>x \<in> set g. x < 0"
  then obtain k where k: "k < length g" "g ! k < 0" by (auto simp: in_set_conv_nth)
  from assms have "0 < length g" by simp
  from scan_strands_total[OF k this, of "[]"] show "\<exists>S. scan_strands g 0 [] = Some (Inr S)" .
next
  assume "\<forall>x \<in> set g. \<not> x < 0"
  then show "find_strands ord g = None" by (rule find_strands_diverges[OF assms])
next
  fix i S assume pos: "\<forall>x \<in> set g. \<not> x < 0" and i: "i < length g"
  then have "\<not> g ! i < 0" by simp
  then show "scan_strands g i S = scan_strands g ((i + 1) mod length g) S"
    by (rule scan_strands_skip[OF i])
  show "scan_strands g i S = None" by (rule scan_strands_diverges[OF pos i])
qed

theorem C10_witness:
  "find_strands id [1, 2] = None \<and> scan_strands [1, 2] 1 [] = None \<and>
   scan_strands [-1, 2, -3] 0 [] = Some (Inr [[-1, 2, -3], [-3, -1]])"
proof -
  have a: "[1, 2::int] \<noteq> []" by simp
  have b: "\<forall>x \<in> set [1, 2::int]. \<not> x < 0" by simp
  have c: "(1::nat) < length [1, 2::int]" by simp
  note t = C10_find_strands_terminates_iff_negative_entry[OF a, of id, THEN conjunct2,
      THEN conjunct2, THEN mp, OF b]
  from t have 1: "find_strands id [1, 2] = None" by (rule conjunct1)
  from t have "\<forall>i S. i < length [1, 2::int] \<longrightarrow>
          scan_strands [1, 2] i S = scan_strands [1, 2] ((i + 1) mod length [1, 2::int]) S \<and>
          scan_strands [1, 2] i S = None" by (rule conjunct2)
  then have 2: "scan_strands [1, 2] 1 [] = None" using c by blast
  show ?thesis using 1 2 scan_unmatched by (intro conjI)
qed

text \<open>
  C10 as stated fails on the empty code: it has no negative entry, and \<^verbatim>\<open>gauss_code[0]\<close>
  raises IndexError at once.
\<close>

theorem C10_counterexample:
  "find_strands id [] = Some (Inl IndexError) \<and> filter (\<lambda>x. x < 0) ([]::int list) = []"
  by (simp add: find_strands_def scan_strands_empty)

section \<open>Counting the multicoloured crossings\<close>

text \<open>A conflict, in the words of the specification: both strands under the crossing are
  coloured, and their colours differ.\<close>

definition conflict :: "colors_dict \<Rightarrow> crossing \<Rightarrow> bool" where
  "conflict d c \<longleftrightarrow>
     is_colored (fst c) d \<and> is_colored (snd c) d \<and> find_color (fst c) d \<noteq> find_color (snd c) d"

definition crossings_of :: "knot_dict \<Rightarrow> label \<Rightarrow> crossing list" where
  "crossings_of kd s = (case map_of kd s of None \<Rightarrow> [] | Some (t, cs) \<Rightarrow> cs)"

text \<open>The number of conflicts among the crossings under the strands of \<open>A\<close>.\<close>

definition conflicts_under :: "colors_dict \<Rightarrow> knot_dict \<Rightarrow> label set \<Rightarrow> nat" where
  "conflicts_under d kd A = (\<Sum>s \<in> A. length (filter (conflict d) (crossings_of kd s)))"

definition total_crossings :: "knot_dict \<Rightarrow> nat" where
  "total_crossings kd = (\<Sum>s \<in> fst ` set kd. length (crossings_of kd s))"

lemma multicolored_conflict:
  assumes "distinct (map fst d)" "distinct (colored_set d)"
  shows "multicolored d c = Inr (conflict d c)"
proof (cases "is_colored (fst c) d \<and> is_colored (snd c) d")
  case False
  then show ?thesis by (auto simp: multicolored_def conflict_def)
next
  case True
  then have a: "fst c \<in> set (colored_set d)" and b: "snd c \<in> set (colored_set d)"
    by (simp_all add: is_colored_iff)
  from find_color_in[OF a] obtain l where
    l: "(find_color (fst c) d, l) \<in> set d" "fst c \<in> set l" by auto
  from find_color_in[OF b] obtain l' where
    l': "(find_color (snd c) d, l') \<in> set d" "snd c \<in> set l'" by auto
  from l(1) assms(1) have m: "map_of d (find_color (fst c) d) = Some l" by simp
  have "(snd c \<in> set l) = (find_color (fst c) d = find_color (snd c) d)"
  proof
    assume "snd c \<in> set l"
    from find_color_part[OF assms l(1) this] show "find_color (fst c) d = find_color (snd c) d"
      by simp
  next
    assume "find_color (fst c) d = find_color (snd c) d"
    with l(1) l'(1) assms(1) have "l' = l" by (auto dest: eq_key_imp_eq_value)
    with l'(2) show "snd c \<in> set l" by simp
  qed
  with True m show ?thesis by (simp add: multicolored_def conflict_def)
qed

lemma count_crossings_eq:
  assumes "distinct (map fst d)" "distinct (colored_set d)"
  shows "count_crossings d cs n = Inr (n + length (filter (conflict d) cs))"
  by (induction cs arbitrary: n) (simp_all add: multicolored_conflict[OF assms])

lemma count_strands_eq:
  assumes "distinct (map fst d)" "distinct (colored_set d)"
  shows "set ss \<subseteq> fst ` set kd \<Longrightarrow>
     count_strands d kd ss n =
       Inr (n + sum_list (map (\<lambda>s. length (filter (conflict d) (crossings_of kd s))) ss))"
proof (induction ss arbitrary: n)
  case Nil
  then show ?case by simp
next
  case (Cons s ss)
  from Cons.prems obtain t cs where m: "map_of kd s = Some (t, cs)"
    by (cases "map_of kd s") (auto simp: map_of_eq_None_iff)
  from Cons.prems have "set ss \<subseteq> fst ` set kd" by simp
  from Cons.IH[OF this] m show ?case
    by (simp add: count_crossings_eq[OF assms] crossings_of_def)
qed

lemma count_colors_eq:
  assumes "distinct (map fst d)" "distinct (colored_set d)"
  shows "set (colored_set rest) \<subseteq> fst ` set kd \<Longrightarrow>
     count_colors d kd rest n =
       Inr (n + sum_list (map (\<lambda>s. length (filter (conflict d) (crossings_of kd s)))
                            (colored_set rest)))"
proof (induction rest arbitrary: n)
  case Nil
  then show ?case by simp
next
  case (Cons a rest)
  obtain k l where a: "a = (k, l)" by (cases a)
  from Cons.prems have 1: "set l \<subseteq> fst ` set kd" and 2: "set (colored_set rest) \<subseteq> fst ` set kd"
    by (simp_all add: a colored_set_Cons)
  from Cons.IH[OF 2] count_strands_eq[OF assms 1] show ?case
    by (simp add: a colored_set_Cons)
qed

lemma count_multicolored_crossings_eq:
  assumes "distinct (map fst d)" "distinct (colored_set d)"
    and "set (colored_set d) \<subseteq> fst ` set kd"
  shows "count_multicolored_crossings d kd = Inr (conflicts_under d kd (set (colored_set d)))"
  using count_colors_eq[OF assms(1,2,3), of 0]
  by (simp add: count_multicolored_crossings_def conflicts_under_def
      sum_list_distinct_conv_sum_set[OF assms(2)])

text \<open>
  C2 (as amended). \<^verbatim>\<open>count_multicolored_crossings\<close> visits the crossings under the coloured
  strands only. For a partition with distinct keys and disjoint parts, whose strands are
  strands of the diagram, it returns the number of conflicts among the crossings whose
  over-strand is coloured. This number is at most the number of conflicts among all the
  crossings of the diagram, which is at most the number of crossings of the diagram.
\<close>

theorem C2_counts_conflicts_under_colored_strands:
  assumes "distinct (map fst d)" and "distinct (colored_set d)"
    and "set (colored_set d) \<subseteq> fst ` set kd"
  shows "count_multicolored_crossings d kd = Inr (conflicts_under d kd (set (colored_set d))) \<and>
    conflicts_under d kd (set (colored_set d)) \<le> conflicts_under d kd (fst ` set kd) \<and>
    conflicts_under d kd (fst ` set kd) \<le> total_crossings kd"
proof (intro conjI)
  show "count_multicolored_crossings d kd = Inr (conflicts_under d kd (set (colored_set d)))"
    by (rule count_multicolored_crossings_eq[OF assms])
  show "conflicts_under d kd (set (colored_set d)) \<le> conflicts_under d kd (fst ` set kd)"
    unfolding conflicts_under_def by (rule sum_mono2) (use assms(3) in auto)
  show "conflicts_under d kd (fst ` set kd) \<le> total_crossings kd"
    unfolding conflicts_under_def total_crossings_def by (rule sum_mono) simp
qed

abbreviation six_crossings :: "int list" where
  "six_crossings \<equiv> [-1,2,-3,1,-4,5,-6,3,-2,4,-5,6]"

abbreviation six_crossings_kd :: knot_dict where
  "six_crossings_kd \<equiv>
     [(''A'', [-1, 2, -3], [(''E'', ''D'')]), (''B'', [-3, 1, -4], [(''A'', ''F'')]),
      (''C'', [-4, 5, -6], [(''F'', ''E'')]), (''D'', [-6, 3, -2], [(''B'', ''A'')]),
      (''E'', [-2, 4, -5], [(''C'', ''B'')]), (''F'', [-5, 6, -1], [(''D'', ''C'')])]"

lemma scan_six_crossings:
  "scan_strands six_crossings 0 [] =
     Some (Inr [[-1, 2, -3], [-3, 1, -4], [-4, 5, -6], [-6, 3, -2], [-2, 4, -5], [-5, 6, -1]])"
  by (simp add: scan_eval)

lemma kd_six_crossings: "create_knot_dictionary id six_crossings = Some (Inr six_crossings_kd)"
  by (simp add: kd_eval scan_six_crossings letter_list_eq)

lemma me_six_ABF:
  "maximally_extend [''A'', ''B'', ''F''] six_crossings_kd =
     Inr [(''A'', [''A'']), (''B'', [''B'']), (''F'', [''F''])]"
  by (simp add: me_eval)

lemma count_six_ABF:
  "count_multicolored_crossings [(''A'', [''A'']), (''B'', [''B'']), (''F'', [''F''])]
     six_crossings_kd = Inr 1"
  by (simp add: count_eval multicolored_def)

theorem C2_witness:
  "maximally_extend [''A'', ''B'', ''F''] six_crossings_kd =
     Inr [(''A'', [''A'']), (''B'', [''B'']), (''F'', [''F''])] \<and>
   count_multicolored_crossings [(''A'', [''A'']), (''B'', [''B'']), (''F'', [''F''])]
     six_crossings_kd =
     Inr (conflicts_under [(''A'', [''A'']), (''B'', [''B'']), (''F'', [''F''])]
            six_crossings_kd {''A'', ''B'', ''F''}) \<and>
   conflicts_under [(''A'', [''A'']), (''B'', [''B'']), (''F'', [''F''])]
            six_crossings_kd {''A'', ''B'', ''F''} = 1 \<and>
   total_crossings six_crossings_kd = 6"
proof -
  let ?d = "[(''A'', [''A'']), (''B'', [''B'']), (''F'', [''F''])]"
  have 1: "distinct (map fst ?d)" by simp
  have 2: "distinct (colored_set ?d)" by (simp add: colored_set_def)
  have 3: "set (colored_set ?d) \<subseteq> fst ` set six_crossings_kd" by (simp add: colored_set_def)
  have s: "set (colored_set ?d) = {''A'', ''B'', ''F''}" by (simp add: colored_set_def)
  note t = C2_counts_conflicts_under_colored_strands[OF 1 2 3]
  from t have a: "count_multicolored_crossings ?d six_crossings_kd =
     Inr (conflicts_under ?d six_crossings_kd {''A'', ''B'', ''F''})"
    unfolding s by (rule conjunct1)
  with count_six_ABF have b: "conflicts_under ?d six_crossings_kd {''A'', ''B'', ''F''} = 1"
    by simp
  have c: "total_crossings six_crossings_kd = 6"
    by (simp add: total_crossings_def crossings_of_def)
  from me_six_ABF a b c show ?thesis by (intro conjI)
qed

text \<open>
  C2 as stated fails. In the diagram of \<^verbatim>\<open>[-1,2,-3,1,-4,5,-6,3,-2,4,-5,6]\<close>, with the seeds
  \<open>A\<close>, \<open>B\<close>, \<open>F\<close>, nothing more is coloured. Two crossings have both strands coloured, in
  different parts: \<open>(A, F)\<close> under \<open>B\<close> and \<open>(B, A)\<close> under \<open>D\<close>. \<open>D\<close> is not coloured, its
  crossing is not visited, and the count is 1.
\<close>

theorem C2_counterexample:
  "create_knot_dictionary id [-1,2,-3,1,-4,5,-6,3,-2,4,-5,6] = Some (Inr six_crossings_kd) \<and>
   maximally_extend [''A'', ''B'', ''F''] six_crossings_kd =
     Inr [(''A'', [''A'']), (''B'', [''B'']), (''F'', [''F''])] \<and>
   filter (conflict [(''A'', [''A'']), (''B'', [''B'']), (''F'', [''F''])])
     (concat (map (\<lambda>(k, t, cs). cs) six_crossings_kd)) = [(''A'', ''F''), (''B'', ''A'')] \<and>
   count_multicolored_crossings [(''A'', [''A'']), (''B'', [''B'']), (''F'', [''F''])]
     six_crossings_kd = Inr 1"
  using kd_six_crossings me_six_ABF count_six_ABF by (simp add: conflict_def)

section \<open>The diagram built from a code\<close>













section \<open>The search\<close>














section \<open>The strands of a code\<close>
































end
